theory Spec2Isabelle
  imports Main "HOL-Library.Word" "HOL-Library.Multiset"
begin

section \<open>The duplicate file finder: data model\<close>

text \<open>
  The module \<^verbatim>\<open>duplicatefilefinder.py\<close> narrows a list of file paths down to groups of
  files with the same key, in three passes (size, checksum of the first block, hash of the
  whole content). A path is a string, a file's content a list of bytes.
\<close>

type_synonym path = string
type_synonym byte = "8 word"

text \<open>
  The file system the key functions read. A path that is not in the map does not exist;
  a file that exists has a content, and may or may not be opened for reading
  (\<^verbatim>\<open>os.path.getsize\<close> needs the meta data only, \<^verbatim>\<open>open(filename, 'rb')\<close> needs the
  permission). The file system is the same during the whole run.
\<close>

record regular_file =
  content :: "byte list"
  readable :: bool

type_synonym filesystem = "path \<rightharpoonup> regular_file"

text \<open>
  What Python raises when a key function fails. Nothing in the module catches it, so
  every function that reads a file returns \<open>error + 'a\<close>, with \<open>Inl\<close> for the exception.
\<close>

datatype error = FileNotFoundError path | PermissionError path

text \<open>
  The keys of the dictionary \<^verbatim>\<open>duplicates\<close>: an integer size in the first pass, the
  32-bit value of \<^verbatim>\<open>zlib.adler32\<close> in the second, the 32 bytes of
  \<^verbatim>\<open>hashlib.sha256().digest()\<close> in the third.
\<close>

datatype key = Size nat | Crc "32 word" | Hash "256 word"

text \<open>
  The dictionary itself, in insertion order (the order in which Python 3.7 and later
  list \<^verbatim>\<open>duplicates.values()\<close>): each key once, with the list of paths appended so far.
\<close>

type_synonym groups = "(key \<times> path list) list"

section \<open>The key functions\<close>

text \<open>\<^verbatim>\<open>os.path.getsize(filename)\<close>: the length of the content, or OSError for a missing path.\<close>

definition getsize :: "filesystem \<Rightarrow> path \<Rightarrow> error + key" where
  "getsize fs filename =
     (case fs filename of
        None \<Rightarrow> Inl (FileNotFoundError filename)
      | Some f \<Rightarrow> Inr (Size (length (content f))))"

text \<open>
  \<^verbatim>\<open>open(filename, 'rb')\<close>: the file object is modelled by the bytes still to be read.
\<close>

definition open_rb :: "filesystem \<Rightarrow> path \<Rightarrow> error + byte list" where
  "open_rb fs filename =
     (case fs filename of
        None \<Rightarrow> Inl (FileNotFoundError filename)
      | Some f \<Rightarrow> if readable f then Inr (content f) else Inl (PermissionError filename))"

text \<open>\<^verbatim>\<open>inputfile.read(n)\<close>: the next \<open>n\<close> bytes (fewer at the end of the file) and the rest.\<close>

definition read :: "nat \<Rightarrow> byte list \<Rightarrow> byte list \<times> byte list" where
  "read n inputfile = (take n inputfile, drop n inputfile)"

text \<open>
  \<^verbatim>\<open>get_crc_key\<close>: \<^verbatim>\<open>zlib.adler32\<close> of the first 1024 bytes. The checksum is a function
  of the zlib library, not of this module: it is the parameter \<open>adler32\<close>.
\<close>

definition get_crc_key :: "(byte list \<Rightarrow> 32 word) \<Rightarrow> filesystem \<Rightarrow> path \<Rightarrow> error + key" where
  "get_crc_key adler32 fs filename =
     (case open_rb fs filename of
        Inl e \<Rightarrow> Inl e
      | Inr inputfile \<Rightarrow> (let chunk = fst (read 1024 inputfile) in Inr (Crc (adler32 chunk))))"

text \<open>
  \<^verbatim>\<open>get_hash_key\<close>: the loop \<^verbatim>\<open>for chunk in iter(lambda: inputfile.read(1024 * 8), b'')\<close>
  reads chunks of 8192 bytes until a read returns the empty byte string, and feeds each to
  the hash object. A hash object is modelled by the bytes fed to it so far
  (\<^verbatim>\<open>update(a); update(b)\<close> is \<^verbatim>\<open>update(a + b)\<close>), and its digest is the library's
  SHA-256 of these bytes: the parameter \<open>sha256\<close>.
\<close>

function hash_chunks :: "byte list \<Rightarrow> byte list \<Rightarrow> byte list" where
  "hash_chunks inputfile hash_object =
     (let (chunk, rest) = read (1024 * 8) inputfile
      in if chunk = [] then hash_object
         else hash_chunks rest (hash_object @ chunk))"
  by pat_completeness auto
termination
  by (relation "measure (\<lambda>(inputfile, hash_object). length inputfile)")
     (auto simp: read_def)

declare hash_chunks.simps [simp del]

definition get_hash_key :: "(byte list \<Rightarrow> 256 word) \<Rightarrow> filesystem \<Rightarrow> path \<Rightarrow> error + key" where
  "get_hash_key sha256 fs filename =
     (case open_rb fs filename of
        Inl e \<Rightarrow> Inl e
      | Inr inputfile \<Rightarrow> Inr (Hash (sha256 (hash_chunks inputfile []))))"

section \<open>The pipeline\<close>

text \<open>\<^verbatim>\<open>duplicates.setdefault(key, []).append(filepath)\<close>\<close>

fun setdefault_append :: "key \<Rightarrow> path \<Rightarrow> groups \<Rightarrow> groups" where
  "setdefault_append k filepath [] = [(k, [filepath])]"
| "setdefault_append k filepath ((k', filepaths) # duplicates) =
     (if k = k' then (k', filepaths @ [filepath]) # duplicates
      else (k', filepaths) # setdefault_append k filepath duplicates)"

text \<open>
  The inner loop over \<^verbatim>\<open>files\<close>. A key function that raises ends the loop, and the
  whole call, with its exception. The counters of the progress line and the calls of
  \<^verbatim>\<open>update\<close> do not change the dictionary and are left out.
\<close>

fun scan :: "(path \<Rightarrow> error + key) \<Rightarrow> path list \<Rightarrow> groups \<Rightarrow> error + groups" where
  "scan keyfunction [] duplicates = Inr duplicates"
| "scan keyfunction (filepath # files) duplicates =
     (case keyfunction filepath of
        Inl e \<Rightarrow> Inl e
      | Inr k \<Rightarrow> scan keyfunction files (setdefault_append k filepath duplicates))"

text \<open>
  \<^verbatim>\<open>sorted(duplicates.values(), key=len, reverse=True)\<close>: a stable sort by descending
  length (groups of the same length keep their order).
\<close>

definition sorted_by_len :: "path list list \<Rightarrow> path list list" where
  "sorted_by_len vs = sort_key (\<lambda>filepaths. - int (length filepaths)) vs"

text \<open>
  The slice \<^verbatim>\<open>sortedfiles[:topcount]\<close>: everything for \<^verbatim>\<open>None\<close>, the first \<open>n\<close> for a
  bound \<open>n \<ge> 0\<close>, all but the last \<open>- n\<close> for a negative bound.
\<close>

definition slice_to :: "int option \<Rightarrow> 'a list \<Rightarrow> 'a list" where
  "slice_to topcount xs =
     (case topcount of
        None \<Rightarrow> xs
      | Some n \<Rightarrow> if 0 \<le> n then take (nat n) xs else take (length xs - nat (- n)) xs)"

text \<open>
  The groups whose files go on to the next pass, and the new value of \<^verbatim>\<open>files\<close>:
  \<^verbatim>\<open>[filepath for filepaths in sortedfiles[:topcount] if len(filepaths) > 1
     for filepath in filepaths]\<close>
\<close>

definition kept_groups :: "int option \<Rightarrow> groups \<Rightarrow> path list list" where
  "kept_groups topcount duplicates =
     filter (\<lambda>filepaths. 1 < length filepaths)
       (slice_to topcount (sorted_by_len (map snd duplicates)))"

definition next_files :: "int option \<Rightarrow> groups \<Rightarrow> path list" where
  "next_files topcount duplicates = concat (kept_groups topcount duplicates)"

text \<open>
  The tuple \<^verbatim>\<open>iterations\<close>: key function, name of the pass, and the bound of the slice
  (\<^verbatim>\<open>top**2 if top else None\<close>, where \<^verbatim>\<open>None\<close> and 0 are both false).
\<close>

type_synonym iteration = "(path \<Rightarrow> error + key) \<times> string \<times> int option"

definition iterations ::
  "(byte list \<Rightarrow> 32 word) \<Rightarrow> (byte list \<Rightarrow> 256 word) \<Rightarrow> filesystem \<Rightarrow> int option \<Rightarrow> iteration list" where
  "iterations adler32 sha256 fs top_arg =
     [(getsize fs, ''By Size'',
         (case top_arg of None \<Rightarrow> None | Some t \<Rightarrow> if t \<noteq> 0 then Some (t ^ 2) else None)),
      (get_crc_key adler32 fs, ''By CRC '',
         (case top_arg of None \<Rightarrow> None | Some t \<Rightarrow> if t \<noteq> 0 then Some (t * 2) else None)),
      (get_hash_key sha256 fs, ''By Hash'', None)]"

text \<open>
  The outer loop: each pass clears the dictionary, fills it from \<^verbatim>\<open>files\<close> and
  replaces \<^verbatim>\<open>files\<close>. The result is the state after the last pass.
\<close>

fun run_iterations :: "iteration list \<Rightarrow> path list \<Rightarrow> groups \<Rightarrow> error + (groups \<times> path list)" where
  "run_iterations [] files duplicates = Inr (duplicates, files)"
| "run_iterations ((keyfunction, name, topcount) # its) files duplicates =
     (case scan keyfunction files [] of
        Inl e \<Rightarrow> Inl e
      | Inr duplicates' \<Rightarrow> run_iterations its (next_files topcount duplicates') duplicates')"

text \<open>
  \<^verbatim>\<open>filter_duplicate_files(files, top)\<close>: the groups of the last dictionary with more than
  one path.
\<close>

definition filter_duplicate_files ::
  "(byte list \<Rightarrow> 32 word) \<Rightarrow> (byte list \<Rightarrow> 256 word) \<Rightarrow> filesystem \<Rightarrow> path list \<Rightarrow> int option
     \<Rightarrow> error + path list list" where
  "filter_duplicate_files adler32 sha256 fs files top_arg =
     (case run_iterations (iterations adler32 sha256 fs top_arg) files [] of
        Inl e \<Rightarrow> Inl e
      | Inr (duplicates, _) \<Rightarrow>
          Inr (filter (\<lambda>filelist. 1 < length filelist) (map snd duplicates)))"

text \<open>
  The state of the outer loop after the first \<open>n\<close> passes: the dictionary of pass \<open>n\<close>
  and the value of \<^verbatim>\<open>files\<close> handed to the next pass. The candidate list that pass
  \<open>n + 1\<close> receives is the second component (for \<open>n = 0\<close> the input itself).
\<close>

definition after_passes ::
  "(byte list \<Rightarrow> 32 word) \<Rightarrow> (byte list \<Rightarrow> 256 word) \<Rightarrow> filesystem \<Rightarrow> path list \<Rightarrow> int option
     \<Rightarrow> nat \<Rightarrow> error + (groups \<times> path list)" where
  "after_passes adler32 sha256 fs files top_arg n =
     run_iterations (take n (iterations adler32 sha256 fs top_arg)) files []"

definition candidates ::
  "(byte list \<Rightarrow> 32 word) \<Rightarrow> (byte list \<Rightarrow> 256 word) \<Rightarrow> filesystem \<Rightarrow> path list \<Rightarrow> int option
     \<Rightarrow> nat \<Rightarrow> error + path list" where
  "candidates adler32 sha256 fs files top_arg n =
     (case after_passes adler32 sha256 fs files top_arg n of
        Inl e \<Rightarrow> Inl e
      | Inr (_, files') \<Rightarrow> Inr files')"

section \<open>The command line\<close>

text \<open>
  The namespace of \<^verbatim>\<open>argparse\<close>. The option \<^verbatim>\<open>-top\<close> is any integer (\<^verbatim>\<open>type=int\<close>,
  default 3), so \<^verbatim>\<open>parser.parse_args()\<close> returns a namespace with an integer there;
  \<^verbatim>\<open>parse_arguments\<close> replaces it by \<^verbatim>\<open>None\<close> for \<^verbatim>\<open>-a\<close> or \<^verbatim>\<open>-top 0\<close> and returns the
  namespace otherwise unchanged. The main program passes \<^verbatim>\<open>ARGS.top if ARGS.fast else None\<close>
  to the pipeline.
\<close>

record namespace =
  directory :: string
  fast :: bool
  delete_old :: bool
  show_all :: bool
  top_value :: "int option"
  include_hidden :: bool
  include_empty :: bool

definition parse_arguments :: "namespace \<Rightarrow> namespace" where
  "parse_arguments args =
     (if show_all args \<or> top_value args = Some 0 then args\<lparr>top_value := None\<rparr> else args)"

definition pipeline_top :: "namespace \<Rightarrow> int option" where
  "pipeline_top ARGS = (if fast ARGS then top_value ARGS else None)"

section \<open>Reading a file in full\<close>

text \<open>
  The content an independent reader gets from a path: the whole content of a file that
  exists and can be opened, nothing otherwise. Two files are byte-identical when their
  full reads are equal.
\<close>

definition full_read :: "filesystem \<Rightarrow> path \<Rightarrow> byte list option" where
  "full_read fs filename =
     (case fs filename of
        None \<Rightarrow> None
      | Some f \<Rightarrow> if readable f then Some (content f) else None)"

text \<open>
  The hash function has no collision among the contents of the given files: two of
  them with the same digest have the same content.
\<close>

definition collision_free :: "(byte list \<Rightarrow> 256 word) \<Rightarrow> filesystem \<Rightarrow> path list \<Rightarrow> bool" where
  "collision_free sha256 fs files \<longleftrightarrow>
     (\<forall>x\<in>set files. \<forall>y\<in>set files.
        case (full_read fs x, full_read fs y) of
          (Some c, Some c') \<Rightarrow> sha256 c = sha256 c' \<longrightarrow> c = c'
        | _ \<Rightarrow> True)"

section \<open>The specification's order of steps\<close>

text \<open>
  The specification describes the end of a pass in another order than the code: first
  discard every group with fewer than 2 members; then, if a budget \<open>n\<close> is active,
  sort the surviving groups by member count, descending, and keep the files of the top
  \<open>n\<close> groups; without a budget keep the files of all surviving groups.
\<close>

definition spec_next_files :: "nat option \<Rightarrow> groups \<Rightarrow> path list" where
  "spec_next_files budget duplicates =
     (let surviving = filter (\<lambda>filepaths. \<not> length filepaths < 2) (map snd duplicates)
      in case budget of
           None \<Rightarrow> concat surviving
         | Some n \<Rightarrow> concat (take n (sorted_by_len surviving)))"

section \<open>The grouping invariant\<close>

text \<open>
  What the inner loop establishes: the dictionary built from \<open>files\<close> has each key once,
  and under a key exactly the paths of \<open>files\<close> with that key, in the order of \<open>files\<close>;
  a key without a path is not in the dictionary.
\<close>

definition grouped :: "(path \<Rightarrow> error + key) \<Rightarrow> path list \<Rightarrow> groups \<Rightarrow> bool" where
  "grouped keyfunction files duplicates \<longleftrightarrow>
     distinct (map fst duplicates) \<and>
     (\<forall>k. map_of duplicates k =
        (if filter (\<lambda>p. keyfunction p = Inr k) files = [] then None
         else Some (filter (\<lambda>p. keyfunction p = Inr k) files)))"

section \<open>A small file system\<close>

text \<open>
  Two files with the same four bytes, one with five bytes, two files of two bytes that
  cannot be opened, and no file \<open>z\<close>.
\<close>

definition sample_fs :: filesystem where
  "sample_fs =
     [''a'' \<mapsto> \<lparr>content = [65, 65, 65, 65], readable = True\<rparr>,
      ''b'' \<mapsto> \<lparr>content = [65, 65, 65, 65], readable = True\<rparr>,
      ''c'' \<mapsto> \<lparr>content = [65, 65, 65, 65, 66], readable = True\<rparr>,
      ''d'' \<mapsto> \<lparr>content = [67, 67], readable = False\<rparr>,
      ''e'' \<mapsto> \<lparr>content = [67, 67], readable = False\<rparr>]"

section \<open>Properties of the key functions\<close>

lemma hash_chunks_eq: "hash_chunks inputfile hash_object = hash_object @ inputfile"
proof (induction inputfile hash_object rule: hash_chunks.induct)
  case (1 inputfile hash_object)
  show ?case
  proof (cases "take (1024 * 8) inputfile = []")
    case True
    then have "inputfile = []" by simp
    then show ?thesis by (simp add: hash_chunks.simps [of "[]"] read_def)
  next
    case False
    have "hash_chunks inputfile hash_object =
          hash_chunks (drop (1024 * 8) inputfile) (hash_object @ take (1024 * 8) inputfile)"
      using False by (simp add: hash_chunks.simps [of inputfile] read_def)
    also have "\<dots> = (hash_object @ take (1024 * 8) inputfile) @ drop (1024 * 8) inputfile"
      using False by (intro "1.IH") (simp_all add: read_def)
    finally show ?thesis by simp
  qed
qed

lemma getsize_eq: "fs filename = Some f \<Longrightarrow> getsize fs filename = Inr (Size (length (content f)))"
  by (simp add: getsize_def)

lemma get_crc_key_eq:
  "fs filename = Some f \<Longrightarrow> readable f \<Longrightarrow>
   get_crc_key adler32 fs filename = Inr (Crc (adler32 (take 1024 (content f))))"
  by (simp add: get_crc_key_def open_rb_def read_def)

lemma get_hash_key_eq:
  "fs filename = Some f \<Longrightarrow> readable f \<Longrightarrow>
   get_hash_key sha256 fs filename = Inr (Hash (sha256 (content f)))"
  by (simp add: get_hash_key_def open_rb_def hash_chunks_eq)

section \<open>The dictionary of one pass\<close>

lemma mset_concat_setdefault_append:
  "mset (concat (map snd (setdefault_append k p d))) = add_mset p (mset (concat (map snd d)))"
  by (induction d) auto

lemma scan_mset:
  "scan kf files d = Inr d' \<Longrightarrow>
   mset (concat (map snd d')) = mset (concat (map snd d)) + mset files"
proof (induction files arbitrary: d)
  case Nil
  then show ?case by simp
next
  case (Cons p ps)
  then show ?case
    by (auto split: sum.splits simp: mset_concat_setdefault_append)
qed

lemma sorted_filter_take:
  "sorted (map f ys) \<Longrightarrow>
   filter (\<lambda>x. f x < t) (take n ys) = take n (filter (\<lambda>x. f x < t) ys)"
proof (induction ys arbitrary: n)
  case Nil
  then show ?case by simp
next
  case (Cons y ys)
  show ?case
  proof (cases n)
    case 0
    then show ?thesis by simp
  next
    case (Suc m)
    show ?thesis
    proof (cases "f y < t")
      case True
      then show ?thesis using Cons Suc by simp
    next
      case False
      have "\<forall>x\<in>set ys. \<not> f x < t" using Cons.prems False by auto
      then have "filter (\<lambda>x. f x < t) ys = []" "filter (\<lambda>x. f x < t) (take m ys) = []"
        by (auto simp: filter_empty_conv dest: in_set_takeD)
      then show ?thesis using False Suc by simp
    qed
  qed
qed

lemma map_of_setdefault_append:
  "map_of (setdefault_append k p d) =
   (map_of d)(k \<mapsto> (case map_of d k of None \<Rightarrow> [p] | Some g \<Rightarrow> g @ [p]))"
  by (induction d) (auto simp: fun_eq_iff)

lemma keys_setdefault_append:
  "map fst (setdefault_append k p d) =
   (if k \<in> set (map fst d) then map fst d else map fst d @ [k])"
  by (induction d) (force simp: image_iff)+

lemma grouped_Nil: "grouped kf [] []"
  by (simp add: grouped_def)

lemma grouped_step:
  assumes "grouped kf done d" and "kf p = Inr k"
  shows "grouped kf (done @ [p]) (setdefault_append k p d)"
proof -
  have "distinct (map fst (setdefault_append k p d))"
    using assms(1) by (simp add: grouped_def keys_setdefault_append)
  moreover have "map_of (setdefault_append k p d) k' =
        (if filter (\<lambda>q. kf q = Inr k') (done @ [p]) = [] then None
         else Some (filter (\<lambda>q. kf q = Inr k') (done @ [p])))" for k'
    using assms by (cases "k' = k") (auto simp: grouped_def map_of_setdefault_append)
  ultimately show ?thesis by (simp add: grouped_def)
qed

lemma scan_grouped:
  "scan kf ps d = Inr d' \<Longrightarrow> grouped kf done d \<Longrightarrow> grouped kf (done @ ps) d'"
proof (induction ps arbitrary: d "done")
  case Nil
  then show ?case by simp
next
  case (Cons p ps)
  from Cons.prems(1) obtain k where k: "kf p = Inr k"
    and rest: "scan kf ps (setdefault_append k p d) = Inr d'"
    by (auto split: sum.splits)
  have "grouped kf ((done @ [p]) @ ps) d'"
    using rest grouped_step [OF Cons.prems(2) k] by (rule Cons.IH)
  then show ?case by simp
qed

lemma scan_keys_defined:
  "scan kf ps d = Inr d' \<Longrightarrow> p \<in> set ps \<Longrightarrow> \<exists>k. kf p = Inr k"
  by (induction ps arbitrary: d) (auto split: sum.splits)

lemma scan_total:
  "\<forall>p\<in>set ps. \<exists>k. kf p = Inr k \<Longrightarrow> \<exists>d'. scan kf ps d = Inr d'"
  by (induction ps arbitrary: d) (auto split: sum.splits)

lemma grouped_member:
  assumes "grouped kf files d"
  shows "(k, g) \<in> set d \<longleftrightarrow> g = filter (\<lambda>p. kf p = Inr k) files \<and> g \<noteq> []"
proof -
  have "distinct (map fst d)"
    using assms by (simp add: grouped_def)
  then have "(k, g) \<in> set d \<longleftrightarrow> map_of d k = Some g"
    by simp
  also have "\<dots> \<longleftrightarrow> g = filter (\<lambda>p. kf p = Inr k) files \<and> g \<noteq> []"
    using assms unfolding grouped_def by (cases "filter (\<lambda>p. kf p = Inr k) files = []") auto
  finally show ?thesis .
qed

lemma grouped_distinct_values:
  assumes "grouped kf files d"
  shows "distinct (map snd d)"
proof -
  have "inj_on snd (set d)"
  proof (rule inj_onI)
    fix x y assume x: "x \<in> set d" and y: "y \<in> set d" and eq: "snd x = snd y"
    obtain k g where xk: "x = (k, g)" by (cases x)
    obtain k' g' where yk: "y = (k', g')" by (cases y)
    from x xk have g: "g = filter (\<lambda>p. kf p = Inr k) files" "g \<noteq> []"
      using grouped_member [OF assms] by auto
    from y yk have g': "g' = filter (\<lambda>p. kf p = Inr k') files" "g' \<noteq> []"
      using grouped_member [OF assms] by auto
    from g(2) obtain p where "p \<in> set g" by (cases g) auto
    then have "p \<in> set (filter (\<lambda>p. kf p = Inr k) files)"
      using g(1) by simp
    then have 1: "kf p = Inr k" by simp
    have "g' = g" using eq xk yk by simp
    with \<open>p \<in> set g\<close> have "p \<in> set (filter (\<lambda>p. kf p = Inr k') files)"
      using g'(1) by simp
    then have 2: "kf p = Inr k'" by simp
    from 1 2 have "k = k'" by simp
    then show "x = y" using eq xk yk by simp
  qed
  moreover have "distinct d" using assms by (simp add: grouped_def distinct_map)
  ultimately show ?thesis by (simp add: distinct_map)
qed

section \<open>Sorting and slicing the groups\<close>

lemma mset_concat_sum: "mset (concat xss) = \<Sum>\<^sub># (image_mset mset (mset xss))"
  by (induction xss) auto

lemma mset_concat_mono:
  "mset xss \<subseteq># mset yss \<Longrightarrow> mset (concat xss) \<subseteq># mset (concat yss)"
  unfolding mset_concat_sum by (rule sum_mset_image_mset_mono_strong) auto

lemma mset_take_subseteq: "mset (take n xs) \<subseteq># mset xs"
  by (metis append_take_drop_id mset_append mset_subset_eq_add_left)

lemma mset_slice_to: "mset (slice_to tc xs) \<subseteq># mset xs"
  by (auto simp: slice_to_def mset_take_subseteq split: option.splits)

lemma mset_kept_groups: "mset (kept_groups tc d) \<subseteq># mset (map snd d)"
proof -
  have "mset (kept_groups tc d) \<subseteq># mset (slice_to tc (sorted_by_len (map snd d)))"
    unfolding kept_groups_def mset_filter by (rule multiset_filter_subset)
  also have "\<dots> \<subseteq># mset (sorted_by_len (map snd d))"
    by (rule mset_slice_to)
  also have "\<dots> = mset (map snd d)"
    by (simp add: sorted_by_len_def)
  finally show ?thesis .
qed

lemma mset_next_files: "mset (next_files tc d) \<subseteq># mset (concat (map snd d))"
  unfolding next_files_def by (rule mset_concat_mono) (rule mset_kept_groups)

lemma more_than_one_iff: "(1 < length g) = (- int (length g) < - 1)"
  by auto

lemma kept_groups_Some_nat:
  "kept_groups (Some (int n)) d =
     take n (sorted_by_len (filter (\<lambda>g. 1 < length g) (map snd d)))"
proof -
  have "kept_groups (Some (int n)) d =
        filter (\<lambda>g. - int (length g) < - 1) (take n (sorted_by_len (map snd d)))"
    by (simp add: kept_groups_def slice_to_def more_than_one_iff)
  also have "\<dots> = take n (filter (\<lambda>g. - int (length g) < - 1) (sorted_by_len (map snd d)))"
    unfolding sorted_by_len_def by (rule sorted_filter_take) (rule sorted_sort_key)
  also have "\<dots> = take n (sorted_by_len (filter (\<lambda>g. 1 < length g) (map snd d)))"
    by (simp add: sorted_by_len_def filter_sort more_than_one_iff)
  finally show ?thesis .
qed

lemma kept_groups_None:
  "kept_groups None d = sorted_by_len (filter (\<lambda>g. 1 < length g) (map snd d))"
  by (simp add: kept_groups_def slice_to_def sorted_by_len_def filter_sort)

lemma mset_concat_sorted_by_len: "mset (concat (sorted_by_len gs)) = mset (concat gs)"
  by (simp add: mset_concat_sum sorted_by_len_def)

section \<open>The passes of the pipeline\<close>

lemma filter_duplicate_files_unfold:
  "filter_duplicate_files adler32 sha256 fs files top_arg =
     (case scan (getsize fs) files [] of
        Inl e \<Rightarrow> Inl e
      | Inr d1 \<Rightarrow>
         (case scan (get_crc_key adler32 fs)
                 (next_files (case top_arg of None \<Rightarrow> None
                              | Some t \<Rightarrow> if t \<noteq> 0 then Some (t ^ 2) else None) d1) [] of
            Inl e \<Rightarrow> Inl e
          | Inr d2 \<Rightarrow>
             (case scan (get_hash_key sha256 fs)
                     (next_files (case top_arg of None \<Rightarrow> None
                                  | Some t \<Rightarrow> if t \<noteq> 0 then Some (t * 2) else None) d2) [] of
                Inl e \<Rightarrow> Inl e
              | Inr d3 \<Rightarrow> Inr (filter (\<lambda>filelist. 1 < length filelist) (map snd d3)))))"
  by (simp add: filter_duplicate_files_def iterations_def split: sum.splits)

lemma run_iterations_append:
  "run_iterations (its @ its') files d =
     (case run_iterations its files d of
        Inl e \<Rightarrow> Inl e
      | Inr (d', files') \<Rightarrow> run_iterations its' files' d')"
  by (induction its files d rule: run_iterations.induct) (auto split: sum.splits)

lemma run_iterations_single:
  "run_iterations [(kf, name, tc)] files d = Inr (d', files') \<Longrightarrow>
   scan kf files [] = Inr d' \<and> files' = next_files tc d'"
  by (auto split: sum.splits)

lemma scan_next_files_mset:
  assumes "scan kf files [] = Inr d"
  shows "mset (next_files tc d) \<subseteq># mset files"
  using mset_next_files [of tc d] scan_mset [OF assms] by simp

lemma after_passes_0: "after_passes adler32 sha256 fs files top_arg 0 = Inr ([], files)"
  by (simp add: after_passes_def)

lemma after_passes_unfold:
  "after_passes adler32 sha256 fs files top_arg (Suc 0) =
     (case scan (getsize fs) files [] of
        Inl e \<Rightarrow> Inl e
      | Inr d1 \<Rightarrow> Inr (d1, next_files (case top_arg of None \<Rightarrow> None
                              | Some t \<Rightarrow> if t \<noteq> 0 then Some (t ^ 2) else None) d1))"
  "after_passes adler32 sha256 fs files top_arg (Suc (Suc 0)) =
     (case after_passes adler32 sha256 fs files top_arg (Suc 0) of
        Inl e \<Rightarrow> Inl e
      | Inr (d1, files1) \<Rightarrow>
         (case scan (get_crc_key adler32 fs) files1 [] of
            Inl e \<Rightarrow> Inl e
          | Inr d2 \<Rightarrow> Inr (d2, next_files (case top_arg of None \<Rightarrow> None
                              | Some t \<Rightarrow> if t \<noteq> 0 then Some (t * 2) else None) d2)))"
  "after_passes adler32 sha256 fs files top_arg (Suc (Suc (Suc 0))) =
     (case after_passes adler32 sha256 fs files top_arg (Suc (Suc 0)) of
        Inl e \<Rightarrow> Inl e
      | Inr (d2, files2) \<Rightarrow>
         (case scan (get_hash_key sha256 fs) files2 [] of
            Inl e \<Rightarrow> Inl e
          | Inr d3 \<Rightarrow> Inr (d3, next_files None d3)))"
  by (simp_all add: after_passes_def iterations_def split: sum.splits)

lemma length_iterations: "length (iterations adler32 sha256 fs top_arg) = 3"
  by (simp add: iterations_def)

lemma after_passes_Suc:
  assumes "after_passes adler32 sha256 fs files top_arg (Suc n) = Inr (d', cs')"
    and "n < 3"
  obtains d cs kf name tc where
    "after_passes adler32 sha256 fs files top_arg n = Inr (d, cs)"
    "iterations adler32 sha256 fs top_arg ! n = (kf, name, tc)"
    "scan kf cs [] = Inr d'" "cs' = next_files tc d'"
proof -
  let ?its = "iterations adler32 sha256 fs top_arg"
  obtain kf name tc where it: "?its ! n = (kf, name, tc)" by (cases "?its ! n") auto
  have take: "take (Suc n) ?its = take n ?its @ [(kf, name, tc)]"
    using assms(2) it by (simp add: take_Suc_conv_app_nth length_iterations)
  from assms(1) have 2: "run_iterations (take n ?its @ [(kf, name, tc)]) files [] = Inr (d', cs')"
    by (simp add: after_passes_def take)
  then obtain d cs where 1: "run_iterations (take n ?its) files [] = Inr (d, cs)"
    unfolding run_iterations_append by (auto split: sum.splits)
  from 2 have "run_iterations [(kf, name, tc)] cs d = Inr (d', cs')"
    unfolding run_iterations_append using 1 by simp
  then have "scan kf cs [] = Inr d' \<and> cs' = next_files tc d'"
    by (rule run_iterations_single)
  then show thesis using that [of d cs kf name tc] 1 it by (simp add: after_passes_def)
qed

lemma after_passes_beyond:
  "3 \<le> n \<Longrightarrow> after_passes adler32 sha256 fs files top_arg n =
     after_passes adler32 sha256 fs files top_arg 3"
  by (simp add: after_passes_def length_iterations)

lemma filter_duplicate_files_after_passes:
  "filter_duplicate_files adler32 sha256 fs files top_arg =
     (case after_passes adler32 sha256 fs files top_arg 3 of
        Inl e \<Rightarrow> Inl e
      | Inr (duplicates, _) \<Rightarrow>
          Inr (filter (\<lambda>filelist. 1 < length filelist) (map snd duplicates)))"
  by (simp add: filter_duplicate_files_def after_passes_def length_iterations)

lemma scan_grouped_Nil:
  "scan kf files [] = Inr d \<Longrightarrow> grouped kf files d"
  using scan_grouped [of kf files "[]" d "[]"] by (simp add: grouped_Nil)

lemma singleton_not_kept:
  assumes "scan kf files [] = Inr d" and "(k, [p]) \<in> set d"
  shows "p \<notin> set (next_files tc d)"
proof
  assume "p \<in> set (next_files tc d)"
  then obtain g where g: "g \<in> set (kept_groups tc d)" "p \<in> set g"
    by (auto simp: next_files_def)
  have gr: "grouped kf files d" using assms(1) by (rule scan_grouped_Nil)
  from g(1) have "g \<in># mset (kept_groups tc d)" by simp
  then have "g \<in># mset (map snd d)" using mset_kept_groups [of tc d] by (rule mset_subset_eqD[rotated])
  then obtain k' where k': "(k', g) \<in> set d" by auto
  from g(1) have len: "1 < length g" by (simp add: kept_groups_def)
  from k' have "g = filter (\<lambda>q. kf q = Inr k') files" using grouped_member [OF gr] by simp
  with g(2) have 1: "kf p = Inr k'" by simp
  from assms(2) have "[p] = filter (\<lambda>q. kf q = Inr k) files" using grouped_member [OF gr] by simp
  then have "p \<in> set (filter (\<lambda>q. kf q = Inr k) files)" by (metis list.set_intros(1))
  then have "kf p = Inr k" by simp
  with 1 have "k' = k" by simp
  with k' assms(2) have "g = [p]"
    using gr by (metis grouped_member)
  with len show False by simp
qed



lemma next_files_None:
  "next_files None d = concat (sorted_by_len (filter (\<lambda>g. 1 < length g) (map snd d)))"
  by (simp add: next_files_def kept_groups_None)

lemma full_read_keys:
  assumes "full_read fs filename = Some c"
  shows "getsize fs filename = Inr (Size (length c))"
    and "get_crc_key adler32 fs filename = Inr (Crc (adler32 (take 1024 c)))"
    and "get_hash_key sha256 fs filename = Inr (Hash (sha256 c))"
  using assms
  by (auto simp: full_read_def getsize_eq get_crc_key_eq get_hash_key_eq
      split: option.splits if_splits)

lemma scan_first_error:
  "\<forall>q\<in>set ps. \<exists>k. kf q = Inr k \<Longrightarrow> kf p = Inl e \<Longrightarrow> scan kf (ps @ p # qs) d = Inl e"
  by (induction ps arbitrary: d) auto

lemma scan_missing:
  "p \<in> set files \<Longrightarrow> fs p = None \<Longrightarrow> \<exists>e. scan (getsize fs) files d = Inl e"
proof (induction files arbitrary: d)
  case Nil
  then show ?case by simp
next
  case (Cons q files)
  show ?case
  proof (cases "getsize fs q")
    case (Inl e)
    then show ?thesis by simp
  next
    case (Inr k)
    then have "q \<noteq> p" using Cons.prems(2) by (auto simp: getsize_def)
    with Cons.prems have "p \<in> set files" by simp
    then show ?thesis using Cons.IH Cons.prems(2) Inr by simp
  qed
qed

lemma pass_error_aborts:
  assumes "n < 3" and "after_passes adler32 sha256 fs files top_arg n = Inr (d, cs)"
    and "scan (fst (iterations adler32 sha256 fs top_arg ! n)) cs [] = Inl e"
  shows "filter_duplicate_files adler32 sha256 fs files top_arg = Inl e"
proof -
  let ?its = "iterations adler32 sha256 fs top_arg"
  obtain kf name tc where it: "?its ! n = (kf, name, tc)" by (cases "?its ! n") auto
  have "?its = take n ?its @ (kf, name, tc) # drop (Suc n) ?its"
    using assms(1) it by (metis id_take_nth_drop length_iterations)
  then have "run_iterations ?its files [] =
      run_iterations (take n ?its @ (kf, name, tc) # drop (Suc n) ?its) files []"
    by simp
  also have "\<dots> = run_iterations ((kf, name, tc) # drop (Suc n) ?its) cs d"
    using assms(2) by (simp add: run_iterations_append after_passes_def)
  also have "\<dots> = Inl e" using assms(3) it by simp
  finally show ?thesis by (simp add: filter_duplicate_files_def)
qed

lemma set_next_files: "scan kf files [] = Inr d \<Longrightarrow> set (next_files tc d) \<subseteq> set files"
  using set_mset_mono [OF scan_next_files_mset [of kf files d tc]] by simp

lemma readable_run:
  assumes "\<forall>p\<in>set files. full_read fs p \<noteq> None"
  shows "\<exists>result. filter_duplicate_files adler32 sha256 fs files top_arg = Inr result"
proof -
  have keys: "\<exists>k. getsize fs p = Inr k" "\<exists>k. get_crc_key adler32 fs p = Inr k"
    "\<exists>k. get_hash_key sha256 fs p = Inr k" if "p \<in> set files" for p
    using assms that full_read_keys [of fs p] by auto
  let ?tc1 = "case top_arg of None \<Rightarrow> None | Some t \<Rightarrow> if t \<noteq> 0 then Some (t ^ 2) else None"
  let ?tc2 = "case top_arg of None \<Rightarrow> None | Some t \<Rightarrow> if t \<noteq> 0 then Some (t * 2) else None"
  obtain d1 where d1: "scan (getsize fs) files [] = Inr d1"
    using scan_total [of files "getsize fs" "[]"] keys(1) by auto
  have s1: "set (next_files ?tc1 d1) \<subseteq> set files" using d1 by (rule set_next_files)
  obtain d2 where d2: "scan (get_crc_key adler32 fs) (next_files ?tc1 d1) [] = Inr d2"
    using scan_total [of "next_files ?tc1 d1" "get_crc_key adler32 fs" "[]"] keys(2) s1 by blast
  have s2: "set (next_files ?tc2 d2) \<subseteq> set files"
    using set_next_files [OF d2] s1 by blast
  obtain d3 where d3: "scan (get_hash_key sha256 fs) (next_files ?tc2 d2) [] = Inr d3"
    using scan_total [of "next_files ?tc2 d2" "get_hash_key sha256 fs" "[]"] keys(3) s2 by blast
  show ?thesis
    by (simp add: filter_duplicate_files_unfold d1 d2 d3)
qed

lemma missing_run:
  assumes "p \<in> set files" and "fs p = None"
  shows "\<exists>e. filter_duplicate_files adler32 sha256 fs files top_arg = Inl e"
proof -
  obtain e where "scan (getsize fs) files [] = Inl e"
    using scan_missing [of p files fs "[]"] assms by blast
  then show ?thesis by (simp add: filter_duplicate_files_unfold)
qed


section \<open>Files that share their keys\<close>

lemma nth_pair_mset:
  assumes "i < length xs" and "j < length xs" and "i \<noteq> j"
  shows "{#xs ! i, xs ! j#} \<subseteq># mset xs"
proof -
  have xs: "xs = take i xs @ xs ! i # drop (Suc i) xs"
    using assms(1) by (rule id_take_nth_drop)
  have "xs ! j \<in> set (take i xs) \<or> xs ! j \<in> set (drop (Suc i) xs)"
  proof (cases "j < i")
    case True
    then have "xs ! j = take i xs ! j" by simp
    moreover have "j < length (take i xs)" using True assms(1) by simp
    ultimately show ?thesis by (metis nth_mem)
  next
    case False
    with assms(3) have "Suc i \<le> j" by simp
    then have "xs ! j = drop (Suc i) xs ! (j - Suc i)" using assms(2) by simp
    moreover have "j - Suc i < length (drop (Suc i) xs)" using \<open>Suc i \<le> j\<close> assms(2) by simp
    ultimately show ?thesis by (metis nth_mem)
  qed
  then have "xs ! j \<in># mset (take i xs) + mset (drop (Suc i) xs)" by auto
  then have "{#xs ! j#} \<subseteq># mset (take i xs) + mset (drop (Suc i) xs)" by simp
  then have "add_mset (xs ! i) {#xs ! j#} \<subseteq># add_mset (xs ! i) (mset (take i xs) + mset (drop (Suc i) xs))"
    by (simp del: mset_subset_eq_add_mset_cancel add: mset_subset_eq_add_mset_cancel)
  moreover have "mset xs = add_mset (xs ! i) (mset (take i xs) + mset (drop (Suc i) xs))"
    by (subst xs) simp
  ultimately show ?thesis by simp
qed

lemma mset_member_concat: "g \<in> set gs \<Longrightarrow> mset g \<subseteq># mset (concat gs)"
  by (induction gs) (auto intro: subset_mset.order_trans)

lemma pair_in_group:
  assumes "scan kf files [] = Inr d" and "{#p, q#} \<subseteq># mset files" and "kf p = kf q"
  obtains k g where "kf p = Inr k" "(k, g) \<in> set d" "{#p, q#} \<subseteq># mset g" "1 < length g"
    "g = filter (\<lambda>x. kf x = Inr k) files"
proof -
  have gr: "grouped kf files d" using assms(1) by (rule scan_grouped_Nil)
  have "p \<in># mset files" using assms(2) by (meson mset_subset_eq_insertD)
  then have "p \<in> set files" by simp
  then obtain k where k: "kf p = Inr k" using scan_keys_defined [OF assms(1)] by blast
  define g where "g = filter (\<lambda>x. kf x = Inr k) files"
  have "filter_mset (\<lambda>x. kf x = Inr k) {#p, q#} \<subseteq># filter_mset (\<lambda>x. kf x = Inr k) (mset files)"
    using assms(2) by (rule multiset_filter_mono)
  then have sub: "{#p, q#} \<subseteq># mset g"
    using k assms(3) by (simp add: g_def)
  then have "size {#p, q#} \<le> size (mset g)" by (rule size_mset_mono)
  then have len: "1 < length g" by simp
  then have "g \<noteq> []" by auto
  then have "(k, g) \<in> set d" using grouped_member [OF gr] by (simp add: g_def)
  then show thesis using that k sub len g_def by blast
qed

lemma pair_survives:
  assumes "scan kf files [] = Inr d" and "{#p, q#} \<subseteq># mset files" and "kf p = kf q"
  shows "{#p, q#} \<subseteq># mset (next_files None d)"
proof -
  from assms obtain k g where g: "(k, g) \<in> set d" "{#p, q#} \<subseteq># mset g" "1 < length g"
    by (rule pair_in_group)
  then have "g \<in> set (filter (\<lambda>g. 1 < length g) (map snd d))" by force
  then have "mset g \<subseteq># mset (concat (filter (\<lambda>g. 1 < length g) (map snd d)))"
    by (rule mset_member_concat)
  then have "mset g \<subseteq># mset (next_files None d)"
    by (simp add: next_files_None mset_concat_sorted_by_len)
  with g(2) show ?thesis by (rule subset_mset.order_trans)
qed

lemma group_of_member:
  assumes "scan kf files [] = Inr d" and "(k, g) \<in> set d" and "x \<in> set g"
  shows "kf x = Inr k" and "x \<in> set files" and "g = filter (\<lambda>y. kf y = Inr k) files"
proof -
  have gr: "grouped kf files d" using assms(1) by (rule scan_grouped_Nil)
  show g: "g = filter (\<lambda>y. kf y = Inr k) files" using grouped_member [OF gr] assms(2) by simp
  from assms(3) have "x \<in> set (filter (\<lambda>y. kf y = Inr k) files)" using g by simp
  then show "kf x = Inr k" and "x \<in> set files" by simp_all
qed

lemma readable_scans:
  assumes "\<forall>x\<in>set files. full_read fs x \<noteq> None"
  obtains d1 d2 d3 where
    "scan (getsize fs) files [] = Inr d1"
    "scan (get_crc_key adler32 fs) (next_files None d1) [] = Inr d2"
    "scan (get_hash_key sha256 fs) (next_files None d2) [] = Inr d3"
    "filter_duplicate_files adler32 sha256 fs files None =
       Inr (filter (\<lambda>filelist. 1 < length filelist) (map snd d3))"
proof -
  have keys: "\<exists>k. getsize fs p = Inr k" "\<exists>k. get_crc_key adler32 fs p = Inr k"
    "\<exists>k. get_hash_key sha256 fs p = Inr k" if "p \<in> set files" for p
    using assms that full_read_keys [of fs p] by auto
  obtain d1 where d1: "scan (getsize fs) files [] = Inr d1"
    using scan_total [of files "getsize fs" "[]"] keys(1) by auto
  have s1: "set (next_files None d1) \<subseteq> set files" using d1 by (rule set_next_files)
  obtain d2 where d2: "scan (get_crc_key adler32 fs) (next_files None d1) [] = Inr d2"
    using scan_total [of "next_files None d1" "get_crc_key adler32 fs" "[]"] keys(2) s1 by blast
  have s2: "set (next_files None d2) \<subseteq> set files"
    using set_next_files [OF d2] s1 by blast
  obtain d3 where d3: "scan (get_hash_key sha256 fs) (next_files None d2) [] = Inr d3"
    using scan_total [of "next_files None d2" "get_hash_key sha256 fs" "[]"] keys(3) s2 by blast
  have "filter_duplicate_files adler32 sha256 fs files None =
       Inr (filter (\<lambda>filelist. 1 < length filelist) (map snd d3))"
    by (simp add: filter_duplicate_files_unfold d1 d2 d3)
  with d1 d2 d3 show thesis by (rule that)
qed

lemma same_content_same_keys:
  assumes "full_read fs p = full_read fs q" and "full_read fs p \<noteq> None"
  shows "getsize fs p = getsize fs q"
    and "get_crc_key adler32 fs p = get_crc_key adler32 fs q"
    and "get_hash_key sha256 fs p = get_hash_key sha256 fs q"
proof -
  from assms obtain c where "full_read fs p = Some c" "full_read fs q = Some c" by auto
  then show "getsize fs p = getsize fs q"
    and "get_crc_key adler32 fs p = get_crc_key adler32 fs q"
    and "get_hash_key sha256 fs p = get_hash_key sha256 fs q"
    by (simp_all add: full_read_keys)
qed

lemma pair_in_one_result:
  assumes d3: "scan kf files [] = Inr d" and pair: "{#p, q#} \<subseteq># mset files" and eq: "kf p = kf q"
  shows "\<exists>m<length (filter (\<lambda>g. 1 < length g) (map snd d)).
           {#p, q#} \<subseteq># mset (filter (\<lambda>g. 1 < length g) (map snd d) ! m) \<and>
           (\<forall>m'<length (filter (\<lambda>g. 1 < length g) (map snd d)).
              p \<in> set (filter (\<lambda>g. 1 < length g) (map snd d) ! m') \<or>
              q \<in> set (filter (\<lambda>g. 1 < length g) (map snd d) ! m') \<longrightarrow> m' = m)"
proof -
  let ?result = "filter (\<lambda>g. 1 < length g) (map snd d)"
  from d3 pair eq obtain k g where k: "kf p = Inr k" and g: "(k, g) \<in> set d"
    "{#p, q#} \<subseteq># mset g" "1 < length g" "g = filter (\<lambda>x. kf x = Inr k) files"
    by (rule pair_in_group)
  have "g \<in> set ?result" using g(1,3) by force
  then obtain m where m: "m < length ?result" "?result ! m = g"
    unfolding in_set_conv_nth by blast
  have dist: "distinct ?result"
    using grouped_distinct_values [OF scan_grouped_Nil [OF d3]] by simp
  have uniq: "m' = m" if m': "m' < length ?result"
    and mem: "p \<in> set (?result ! m') \<or> q \<in> set (?result ! m')" for m'
  proof -
    have "?result ! m' \<in> set ?result" using m' by (rule nth_mem)
    then obtain k' where k': "(k', ?result ! m') \<in> set d" by auto
    from mem have "kf p = Inr k'"
      using group_of_member(1) [OF d3 k'] eq by metis
    with k have "k' = k" by simp
    then have "?result ! m' = g"
      using group_of_member(3) [OF d3 k'] mem g(4) by blast
    then have "?result ! m' = ?result ! m" using m(2) by simp
    then show ?thesis using dist m' m(1) by (simp add: nth_eq_iff_index_eq)
  qed
  show ?thesis using m g(2) uniq by blast
qed

lemma get_hash_key_Inr:
  assumes "get_hash_key sha256 fs x = Inr k"
  shows "\<exists>c. full_read fs x = Some c \<and> k = Hash (sha256 c)"
  using assms
  by (auto simp: get_hash_key_def open_rb_def full_read_def hash_chunks_eq
      split: option.splits if_splits)

lemma result_groups:
  assumes "filter_duplicate_files adler32 sha256 fs files top_arg = Inr result"
  obtains files2 d3 where
    "scan (get_hash_key sha256 fs) files2 [] = Inr d3"
    "result = filter (\<lambda>filelist. 1 < length filelist) (map snd d3)"
    "mset files2 \<subseteq># mset files"
proof -
  let ?tc1 = "case top_arg of None \<Rightarrow> None | Some t \<Rightarrow> if t \<noteq> 0 then Some (t ^ 2) else None"
  let ?tc2 = "case top_arg of None \<Rightarrow> None | Some t \<Rightarrow> if t \<noteq> 0 then Some (t * 2) else None"
  from assms obtain d1 d2 d3 where
    d1: "scan (getsize fs) files [] = Inr d1" and
    d2: "scan (get_crc_key adler32 fs) (next_files ?tc1 d1) [] = Inr d2" and
    d3: "scan (get_hash_key sha256 fs) (next_files ?tc2 d2) [] = Inr d3" and
    res: "result = filter (\<lambda>filelist. 1 < length filelist) (map snd d3)"
    unfolding filter_duplicate_files_unfold by (auto split: sum.splits)
  have "mset (next_files ?tc2 d2) \<subseteq># mset (next_files ?tc1 d1)"
    using d2 by (rule scan_next_files_mset)
  also have "\<dots> \<subseteq># mset files"
    using d1 by (rule scan_next_files_mset)
  finally show thesis using d3 res that by blast
qed

lemma filter_eq_replicate_count: "filter (\<lambda>x. x = p) xs = replicate (count_list xs p) p"
  by (induction xs) auto

lemma twice_pair_mset:
  assumes "count_list xs p = 2"
  shows "{#p, p#} \<subseteq># mset xs"
proof (rule mset_subset_eqI)
  fix a
  show "count {#p, p#} a \<le> count (mset xs) a"
    using assms by (auto simp: count_mset)
qed

lemma count_list_mono_mset: "mset xs \<subseteq># mset ys \<Longrightarrow> count_list xs p \<le> count_list ys p"
  using mset_subset_eq_count [of "mset xs" "mset ys" p] by (simp add: count_mset)

lemma count_list_filter: "count_list (filter P xs) p = (if P p then count_list xs p else 0)"
  by (induction xs) auto

section \<open>Contents that share their checksum and digest\<close>

lemma card_fixed_length: "card {c :: byte list. length c = n} = (2 ^ 8) ^ n"
  using card_lists_length_eq [of "UNIV :: byte set" n] by (simp add: card_word)

lemma card_key_pairs: "card (UNIV :: (32 word \<times> 256 word) set) = 2 ^ 288"
proof -
  have "card (UNIV :: (32 word \<times> 256 word) set) = 2 ^ 32 * 2 ^ 256"
    by (simp add: card_word flip: UNIV_Times_UNIV del: UNIV_Times_UNIV)
  also have "\<dots> = (2::nat) ^ 288" by (simp flip: power_add)
  finally show ?thesis .
qed

lemma colliding_contents:
  fixes adler32 :: "byte list \<Rightarrow> 32 word" and sha256 :: "byte list \<Rightarrow> 256 word"
  shows "\<exists>c c'. length c = 37 \<and> length c' = 37 \<and> c \<noteq> c' \<and>
           adler32 c = adler32 c' \<and> sha256 c = sha256 c'"
proof -
  let ?A = "{c :: byte list. length c = 37}"
  let ?f = "\<lambda>c. (adler32 c, sha256 c)"
  have "card (?f ` ?A) \<le> card (UNIV :: (32 word \<times> 256 word) set)"
    by (rule card_mono) auto
  also have "\<dots> = 2 ^ 288" by (rule card_key_pairs)
  also have "\<dots> < (2::nat) ^ 296" by (rule power_strict_increasing) simp_all
  also have "\<dots> = (2 ^ 8) ^ 37" by (simp flip: power_mult)
  also have "\<dots> = card ?A" by (simp only: card_fixed_length)
  finally have "\<not> inj_on ?f ?A" by (rule pigeonhole)
  then show ?thesis by (auto simp: inj_on_def)
qed

section \<open>Runs on the small file system\<close>

lemmas run_simps = filter_duplicate_files_unfold sample_fs_def getsize_def get_crc_key_def
  get_hash_key_def open_rb_def read_def hash_chunks_eq next_files_def kept_groups_def
  sorted_by_len_def slice_to_def

lemma sample_run_abc:
  "filter_duplicate_files adler32 sha256 sample_fs [''a'', ''b'', ''c''] None = Inr [[''a'', ''b'']]"
  by (simp add: run_simps)

lemma sample_after_1:
  "after_passes adler32 sha256 sample_fs [''a'', ''b'', ''c''] None (Suc 0) =
     Inr ([(Size 4, [''a'', ''b'']), (Size 5, [''c''])], [''a'', ''b''])"
  by (simp add: after_passes_def iterations_def run_simps)

lemma sample_candidates_0:
  "candidates adler32 sha256 sample_fs [''a'', ''b'', ''c''] None 0 = Inr [''a'', ''b'', ''c'']"
  by (simp add: candidates_def after_passes_0)

lemma sample_candidates_1:
  "candidates adler32 sha256 sample_fs [''a'', ''b'', ''c''] None (Suc 0) = Inr [''a'', ''b'']"
  by (simp add: candidates_def sample_after_1)




lemma sample_run_top1:
  "filter_duplicate_files adler32 sha256 sample_fs [''a'', ''a'', ''a'', ''c'', ''c''] (Some 1) =
     Inr [[''a'', ''a'', ''a'']]"
  by (simp add: run_simps)

lemma sample_full_read:
  "full_read sample_fs ''a'' = Some [65, 65, 65, 65]"
  "full_read sample_fs ''b'' = Some [65, 65, 65, 65]"
  "full_read sample_fs ''c'' = Some [65, 65, 65, 65, 66]"
  "full_read sample_fs ''d'' = None"
  "full_read sample_fs ''e'' = None"
  "full_read sample_fs ''z'' = None"
  by (simp_all add: full_read_def sample_fs_def)

lemma sample_after_1_denied:
  "after_passes adler32 sha256 sample_fs [''a'', ''b'', ''d'', ''e''] None 1 =
     Inr ([(Size 4, [''a'', ''b'']), (Size 2, [''d'', ''e''])], [''a'', ''b'', ''d'', ''e''])"
  by (simp add: after_passes_def iterations_def run_simps)

lemma sample_run_ab:
  "filter_duplicate_files adler32 sha256 sample_fs [''a'', ''b''] None = Inr [[''a'', ''b'']]"
  by (simp add: run_simps)

section \<open>Monotonic narrowing\<close>

text \<open>
  Claim C7. For every input and every \<^verbatim>\<open>top\<close>, the candidates handed to pass \<open>n + 1\<close> are
  among the candidates pass \<open>n\<close> received (the first pass receives the input), as a set
  and with their multiplicities, so the number of candidates never grows.
\<close>

theorem candidates_narrowing:
  assumes "candidates adler32 sha256 fs files top_arg n = Inr cs"
    and "candidates adler32 sha256 fs files top_arg (Suc n) = Inr cs'"
  shows "candidates adler32 sha256 fs files top_arg 0 = Inr files \<and>
         set cs' \<subseteq> set cs \<and> mset cs' \<subseteq># mset cs \<and> length cs' \<le> length cs"
proof -
  have sub: "mset cs' \<subseteq># mset cs"
  proof (cases "n < 3")
    case True
    from assms(2) obtain d' where 2: "after_passes adler32 sha256 fs files top_arg (Suc n) = Inr (d', cs')"
      by (auto simp: candidates_def split: sum.splits)
    from 2 True obtain d cs0 kf name tc where
      1: "after_passes adler32 sha256 fs files top_arg n = Inr (d, cs0)"
      and sc: "scan kf cs0 [] = Inr d'" and nf: "cs' = next_files tc d'"
      by (rule after_passes_Suc)
    from 1 assms(1) have "cs0 = cs" by (simp add: candidates_def)
    with sc nf show ?thesis using scan_next_files_mset [of kf cs d' tc] by simp
  next
    case False
    then have "candidates adler32 sha256 fs files top_arg (Suc n) =
               candidates adler32 sha256 fs files top_arg n"
      by (simp add: candidates_def after_passes_beyond [of n] after_passes_beyond [of "Suc n"])
    with assms show ?thesis by simp
  qed
  have "set cs' \<subseteq> set cs" using set_mset_mono [OF sub] by simp
  moreover have "length cs' \<le> length cs" using sub by (metis size_mset size_mset_mono)
  moreover have "candidates adler32 sha256 fs files top_arg 0 = Inr files"
    by (simp add: candidates_def after_passes_0)
  ultimately show ?thesis using sub by simp
qed

theorem candidates_narrowing_witness:
  "\<forall>adler32 sha256.
     candidates adler32 sha256 sample_fs [''a'', ''b'', ''c''] None 0 = Inr [''a'', ''b'', ''c''] \<and>
     candidates adler32 sha256 sample_fs [''a'', ''b'', ''c''] None (Suc 0) = Inr [''a'', ''b''] \<and>
     set [''a'', ''b''] \<subseteq> set [''a'', ''b'', ''c''] \<and>
     mset [''a'', ''b''] \<subseteq># mset [''a'', ''b'', ''c''] \<and>
     length [''a'', ''b''] \<le> length [''a'', ''b'', ''c'']"
proof (intro allI)
  fix adler32 sha256
  have 0: "candidates adler32 sha256 sample_fs [''a'', ''b'', ''c''] None 0 = Inr [''a'', ''b'', ''c'']"
    by (rule sample_candidates_0)
  have 1: "candidates adler32 sha256 sample_fs [''a'', ''b'', ''c''] None (Suc 0) = Inr [''a'', ''b'']"
    by (rule sample_candidates_1)
  show "candidates adler32 sha256 sample_fs [''a'', ''b'', ''c''] None 0 = Inr [''a'', ''b'', ''c''] \<and>
     candidates adler32 sha256 sample_fs [''a'', ''b'', ''c''] None (Suc 0) = Inr [''a'', ''b''] \<and>
     set [''a'', ''b''] \<subseteq> set [''a'', ''b'', ''c''] \<and>
     mset [''a'', ''b''] \<subseteq># mset [''a'', ''b'', ''c''] \<and>
     length [''a'', ''b''] \<le> length [''a'', ''b'', ''c'']"
    using candidates_narrowing [OF 0 1] 0 1 by blast
qed

section \<open>Minimum group size\<close>

text \<open>
  Claim C6. For every input and every \<^verbatim>\<open>top\<close>, every returned list of paths has at least
  two members; and in each of the three passes, the path of a group with exactly one
  member is not among the files handed on by that pass.
\<close>

theorem minimum_group_size:
  "(filter_duplicate_files adler32 sha256 fs files top_arg = Inr result \<longrightarrow>
      (\<forall>filelist\<in>set result. 2 \<le> length filelist)) \<and>
   (n < 3 \<and> after_passes adler32 sha256 fs files top_arg (Suc n) = Inr (duplicates, files') \<and>
      (k, [p]) \<in> set duplicates \<longrightarrow> p \<notin> set files')"
proof (intro conjI impI)
  assume "filter_duplicate_files adler32 sha256 fs files top_arg = Inr result"
  then show "\<forall>filelist\<in>set result. 2 \<le> length filelist"
    by (auto simp: filter_duplicate_files_def split: sum.splits)
next
  assume a: "n < 3 \<and> after_passes adler32 sha256 fs files top_arg (Suc n) = Inr (duplicates, files') \<and>
      (k, [p]) \<in> set duplicates"
  then obtain d cs kf name tc where
    "scan kf cs [] = Inr duplicates" "files' = next_files tc duplicates"
    using after_passes_Suc [of adler32 sha256 fs files top_arg n duplicates files'] by metis
  then show "p \<notin> set files'" using a singleton_not_kept by metis
qed

theorem minimum_group_size_witness:
  "\<forall>adler32 sha256.
     filter_duplicate_files adler32 sha256 sample_fs [''a'', ''b'', ''c''] None = Inr [[''a'', ''b'']] \<and>
     2 \<le> length [''a'', ''b''] \<and>
     (0::nat) < 3 \<and>
     after_passes adler32 sha256 sample_fs [''a'', ''b'', ''c''] None (Suc 0) =
       Inr ([(Size 4, [''a'', ''b'']), (Size 5, [''c''])], [''a'', ''b'']) \<and>
     (Size 5, [''c'']) \<in> set [(Size 4, [''a'', ''b'']), (Size 5, [''c''])] \<and>
     ''c'' \<notin> set [''a'', ''b'']"
  using minimum_group_size [of _ _ sample_fs "[''a'', ''b'', ''c'']" None "[[''a'', ''b'']]" 0
      "[(Size 4, [''a'', ''b'']), (Size 5, [''c''])]" "[''a'', ''b'']" "Size 5" "''c''"]
  by (simp add: sample_run_abc sample_after_1)

section \<open>The order of discarding and truncating\<close>

text \<open>
  Claim C8. For every dictionary of a pass and every budget \<open>n\<close>, the specification's
  order (discard the groups with fewer than 2 members, then sort and keep the top \<open>n\<close>
  groups) gives the same next candidates as the code's order (sort all groups, slice the
  first \<open>n\<close>, then drop the groups of size 1): the same list for a budget, the same
  files with the same multiplicities without one.
\<close>

theorem spec_order_same_candidates:
  "next_files (Some (int n)) duplicates = spec_next_files (Some n) duplicates \<and>
   mset (next_files None duplicates) = mset (spec_next_files None duplicates) \<and>
   set (next_files None duplicates) = set (spec_next_files None duplicates)"
proof -
  have less2: "(\<lambda>g::path list. \<not> length g < 2) = (\<lambda>g. 1 < length g)"
    by (auto simp: fun_eq_iff)
  have 1: "next_files (Some (int n)) duplicates = spec_next_files (Some n) duplicates"
    by (simp add: next_files_def spec_next_files_def kept_groups_Some_nat less2)
  have 2: "mset (next_files None duplicates) = mset (spec_next_files None duplicates)"
    by (simp add: next_files_def spec_next_files_def kept_groups_None less2
        mset_concat_sorted_by_len)
  from 2 have "set (next_files None duplicates) = set (spec_next_files None duplicates)"
    by (rule mset_eq_setD)
  with 1 2 show ?thesis by simp
qed

theorem spec_order_same_candidates_witness:
  "next_files (Some (int 1))
     [(Size 4, [''a'', ''b'']), (Size 5, [''c'']), (Size 2, [''d'', ''e'', ''f''])] = [''d'', ''e'', ''f''] \<and>
   spec_next_files (Some 1)
     [(Size 4, [''a'', ''b'']), (Size 5, [''c'']), (Size 2, [''d'', ''e'', ''f''])] = [''d'', ''e'', ''f'']"
  using spec_order_same_candidates
    [of 1 "[(Size 4, [''a'', ''b'']), (Size 5, [''c'']), (Size 2, [''d'', ''e'', ''f''])]"]
  by (simp add: spec_next_files_def sorted_by_len_def)

section \<open>The three passes and their keys\<close>

text \<open>
  Claim C9. The pipeline runs exactly three passes, by size, by checksum and by hash, in
  this order: the result is that of a scan with \<^verbatim>\<open>os.path.getsize\<close> over the input, then
  a scan with \<^verbatim>\<open>get_crc_key\<close> over the files the first scan hands on, then a scan with
  \<^verbatim>\<open>get_hash_key\<close> over the files the second scan hands on, and the state after each
  pass is the dictionary of that scan with the files it hands on. For a file that can be
  read, the key of the second pass is the 32-bit Adler checksum of the first 1024 bytes,
  and the key of the third pass is the SHA-256 digest of the whole content, which the
  loop feeds to the hash object in chunks of 8192 bytes.
\<close>

theorem three_passes:
  assumes "fs filename = Some f" and "readable f"
  shows "map (fst \<circ> snd) (iterations adler32 sha256 fs top_arg) = [''By Size'', ''By CRC '', ''By Hash''] \<and>
         map fst (iterations adler32 sha256 fs top_arg) =
           [getsize fs, get_crc_key adler32 fs, get_hash_key sha256 fs] \<and>
         getsize fs filename = Inr (Size (length (content f))) \<and>
         get_crc_key adler32 fs filename = Inr (Crc (adler32 (take 1024 (content f)))) \<and>
         get_hash_key sha256 fs filename = Inr (Hash (sha256 (content f))) \<and>
         hash_chunks (content f) [] = content f \<and>
         (\<forall>inputfile hash_object. hash_chunks inputfile hash_object =
            (if inputfile = [] then hash_object
             else hash_chunks (drop 8192 inputfile) (hash_object @ take 8192 inputfile))) \<and>
         filter_duplicate_files adler32 sha256 fs files top_arg =
           (case scan (getsize fs) files [] of
              Inl e \<Rightarrow> Inl e
            | Inr d1 \<Rightarrow>
               (case scan (get_crc_key adler32 fs)
                       (next_files (case top_arg of None \<Rightarrow> None
                                    | Some t \<Rightarrow> if t \<noteq> 0 then Some (t ^ 2) else None) d1) [] of
                  Inl e \<Rightarrow> Inl e
                | Inr d2 \<Rightarrow>
                   (case scan (get_hash_key sha256 fs)
                           (next_files (case top_arg of None \<Rightarrow> None
                                        | Some t \<Rightarrow> if t \<noteq> 0 then Some (t * 2) else None) d2) [] of
                      Inl e \<Rightarrow> Inl e
                    | Inr d3 \<Rightarrow> Inr (filter (\<lambda>filelist. 1 < length filelist) (map snd d3))))) \<and>
         after_passes adler32 sha256 fs files top_arg 0 = Inr ([], files) \<and>
         after_passes adler32 sha256 fs files top_arg (Suc 0) =
           (case scan (getsize fs) files [] of
              Inl e \<Rightarrow> Inl e
            | Inr d1 \<Rightarrow> Inr (d1, next_files (case top_arg of None \<Rightarrow> None
                                    | Some t \<Rightarrow> if t \<noteq> 0 then Some (t ^ 2) else None) d1)) \<and>
         after_passes adler32 sha256 fs files top_arg (Suc (Suc 0)) =
           (case after_passes adler32 sha256 fs files top_arg (Suc 0) of
              Inl e \<Rightarrow> Inl e
            | Inr (d1, files1) \<Rightarrow>
               (case scan (get_crc_key adler32 fs) files1 [] of
                  Inl e \<Rightarrow> Inl e
                | Inr d2 \<Rightarrow> Inr (d2, next_files (case top_arg of None \<Rightarrow> None
                                    | Some t \<Rightarrow> if t \<noteq> 0 then Some (t * 2) else None) d2))) \<and>
         after_passes adler32 sha256 fs files top_arg (Suc (Suc (Suc 0))) =
           (case after_passes adler32 sha256 fs files top_arg (Suc (Suc 0)) of
              Inl e \<Rightarrow> Inl e
            | Inr (d2, files2) \<Rightarrow>
               (case scan (get_hash_key sha256 fs) files2 [] of
                  Inl e \<Rightarrow> Inl e
                | Inr d3 \<Rightarrow> Inr (d3, next_files None d3))) \<and>
         filter_duplicate_files adler32 sha256 fs files top_arg =
           (case after_passes adler32 sha256 fs files top_arg 3 of
              Inl e \<Rightarrow> Inl e
            | Inr (duplicates, _) \<Rightarrow>
                Inr (filter (\<lambda>filelist. 1 < length filelist) (map snd duplicates)))"
proof -
  have "map (fst \<circ> snd) (iterations adler32 sha256 fs top_arg) = [''By Size'', ''By CRC '', ''By Hash'']"
    and "map fst (iterations adler32 sha256 fs top_arg) =
           [getsize fs, get_crc_key adler32 fs, get_hash_key sha256 fs]"
    by (simp_all add: iterations_def)
  moreover have "getsize fs filename = Inr (Size (length (content f)))"
    using assms(1) by (rule getsize_eq)
  moreover have "get_crc_key adler32 fs filename = Inr (Crc (adler32 (take 1024 (content f))))"
    using assms by (rule get_crc_key_eq)
  moreover have "get_hash_key sha256 fs filename = Inr (Hash (sha256 (content f)))"
    using assms by (rule get_hash_key_eq)
  moreover have "hash_chunks (content f) [] = content f"
    by (simp add: hash_chunks_eq)
  moreover have "\<forall>inputfile hash_object. hash_chunks inputfile hash_object =
            (if inputfile = [] then hash_object
             else hash_chunks (drop 8192 inputfile) (hash_object @ take 8192 inputfile))"
    by (simp add: hash_chunks_eq)
  moreover note filter_duplicate_files_unfold [of adler32 sha256 fs files top_arg]
  moreover note after_passes_0 [of adler32 sha256 fs files top_arg]
  moreover note after_passes_unfold [of adler32 sha256 fs files top_arg]
  moreover note filter_duplicate_files_after_passes [of adler32 sha256 fs files top_arg]
  ultimately show ?thesis by (intro conjI)
qed

theorem three_passes_witness:
  "\<forall>adler32 sha256.
     sample_fs ''a'' = Some \<lparr>content = [65, 65, 65, 65], readable = True\<rparr> \<and>
     map (fst \<circ> snd) (iterations adler32 sha256 sample_fs None) = [''By Size'', ''By CRC '', ''By Hash''] \<and>
     getsize sample_fs ''a'' = Inr (Size 4) \<and>
     get_crc_key adler32 sample_fs ''a'' = Inr (Crc (adler32 [65, 65, 65, 65])) \<and>
     get_hash_key sha256 sample_fs ''a'' = Inr (Hash (sha256 [65, 65, 65, 65])) \<and>
     after_passes adler32 sha256 sample_fs [''a'', ''b'', ''c''] None (Suc 0) =
       Inr ([(Size 4, [''a'', ''b'']), (Size 5, [''c''])], [''a'', ''b'']) \<and>
     after_passes adler32 sha256 sample_fs [''a'', ''b'', ''c''] None (Suc (Suc 0)) =
       Inr ([(Crc (adler32 [65, 65, 65, 65]), [''a'', ''b''])], [''a'', ''b'']) \<and>
     after_passes adler32 sha256 sample_fs [''a'', ''b'', ''c''] None (Suc (Suc (Suc 0))) =
       Inr ([(Hash (sha256 [65, 65, 65, 65]), [''a'', ''b''])], [''a'', ''b'']) \<and>
     filter_duplicate_files adler32 sha256 sample_fs [''a'', ''b'', ''c''] None = Inr [[''a'', ''b'']]"
proof (intro allI)
  fix adler32 :: "byte list \<Rightarrow> 32 word" and sha256 :: "byte list \<Rightarrow> 256 word"
  have a: "sample_fs ''a'' = Some \<lparr>content = [65, 65, 65, 65], readable = True\<rparr>"
    by (simp add: sample_fs_def)
  have r: "readable \<lparr>content = [65, 65, 65, 65], readable = True\<rparr>" by simp
  note tp = three_passes [of sample_fs "''a''" "\<lparr>content = [65, 65, 65, 65], readable = True\<rparr>"
        adler32 sha256 None "[''a'', ''b'', ''c'']", OF a r]
  have keys: "map (fst \<circ> snd) (iterations adler32 sha256 sample_fs None) = [''By Size'', ''By CRC '', ''By Hash'']"
    "getsize sample_fs ''a'' = Inr (Size 4)"
    "get_crc_key adler32 sample_fs ''a'' = Inr (Crc (adler32 [65, 65, 65, 65]))"
    "get_hash_key sha256 sample_fs ''a'' = Inr (Hash (sha256 [65, 65, 65, 65]))"
    using tp by simp_all
  have s1: "scan (getsize sample_fs) [''a'', ''b'', ''c''] [] =
      Inr [(Size 4, [''a'', ''b'']), (Size 5, [''c''])]"
    by (simp add: sample_fs_def getsize_def)
  have n1: "next_files None [(Size 4, [''a'', ''b'']), (Size 5, [''c''])] = [''a'', ''b'']"
    by (simp add: next_files_def kept_groups_def sorted_by_len_def slice_to_def)
  have s2: "scan (get_crc_key adler32 sample_fs) [''a'', ''b''] [] =
      Inr [(Crc (adler32 [65, 65, 65, 65]), [''a'', ''b''])]"
    by (simp add: sample_fs_def get_crc_key_def open_rb_def read_def)
  have n2: "next_files None [(k, [''a'', ''b''])] = [''a'', ''b'']" for k
    by (simp add: next_files_def kept_groups_def sorted_by_len_def slice_to_def)
  have s3: "scan (get_hash_key sha256 sample_fs) [''a'', ''b''] [] =
      Inr [(Hash (sha256 [65, 65, 65, 65]), [''a'', ''b''])]"
    by (simp add: sample_fs_def get_hash_key_def open_rb_def hash_chunks_eq)
  note e10 = tp [THEN conjunct2, THEN conjunct2, THEN conjunct2, THEN conjunct2, THEN conjunct2, THEN conjunct2, THEN conjunct2, THEN conjunct2, THEN conjunct2, THEN conjunct1]
  note e11 = tp [THEN conjunct2, THEN conjunct2, THEN conjunct2, THEN conjunct2, THEN conjunct2, THEN conjunct2, THEN conjunct2, THEN conjunct2, THEN conjunct2, THEN conjunct2, THEN conjunct1]
  note e12 = tp [THEN conjunct2, THEN conjunct2, THEN conjunct2, THEN conjunct2, THEN conjunct2, THEN conjunct2, THEN conjunct2, THEN conjunct2, THEN conjunct2, THEN conjunct2, THEN conjunct2, THEN conjunct1]
  note e13 = tp [THEN conjunct2, THEN conjunct2, THEN conjunct2, THEN conjunct2, THEN conjunct2, THEN conjunct2, THEN conjunct2, THEN conjunct2, THEN conjunct2, THEN conjunct2, THEN conjunct2, THEN conjunct2]
  have p1: "after_passes adler32 sha256 sample_fs [''a'', ''b'', ''c''] None (Suc 0) =
       Inr ([(Size 4, [''a'', ''b'']), (Size 5, [''c''])], [''a'', ''b''])"
    by (simp only: e10 s1 n1 sum.case option.case)
  have p2: "after_passes adler32 sha256 sample_fs [''a'', ''b'', ''c''] None (Suc (Suc 0)) =
       Inr ([(Crc (adler32 [65, 65, 65, 65]), [''a'', ''b''])], [''a'', ''b''])"
    by (simp only: e11 p1 s2 n2 sum.case prod.case option.case)
  have p3: "after_passes adler32 sha256 sample_fs [''a'', ''b'', ''c''] None (Suc (Suc (Suc 0))) =
       Inr ([(Hash (sha256 [65, 65, 65, 65]), [''a'', ''b''])], [''a'', ''b''])"
    by (simp only: e12 p2 s3 n2 sum.case prod.case)
  have res: "filter_duplicate_files adler32 sha256 sample_fs [''a'', ''b'', ''c''] None =
       Inr [[''a'', ''b'']]"
    by (simp add: e13 numeral_3_eq_3 p3)
  from a keys p1 p2 p3 res
  show "sample_fs ''a'' = Some \<lparr>content = [65, 65, 65, 65], readable = True\<rparr> \<and>
     map (fst \<circ> snd) (iterations adler32 sha256 sample_fs None) = [''By Size'', ''By CRC '', ''By Hash''] \<and>
     getsize sample_fs ''a'' = Inr (Size 4) \<and>
     get_crc_key adler32 sample_fs ''a'' = Inr (Crc (adler32 [65, 65, 65, 65])) \<and>
     get_hash_key sha256 sample_fs ''a'' = Inr (Hash (sha256 [65, 65, 65, 65])) \<and>
     after_passes adler32 sha256 sample_fs [''a'', ''b'', ''c''] None (Suc 0) =
       Inr ([(Size 4, [''a'', ''b'']), (Size 5, [''c''])], [''a'', ''b'']) \<and>
     after_passes adler32 sha256 sample_fs [''a'', ''b'', ''c''] None (Suc (Suc 0)) =
       Inr ([(Crc (adler32 [65, 65, 65, 65]), [''a'', ''b''])], [''a'', ''b'']) \<and>
     after_passes adler32 sha256 sample_fs [''a'', ''b'', ''c''] None (Suc (Suc (Suc 0))) =
       Inr ([(Hash (sha256 [65, 65, 65, 65]), [''a'', ''b''])], [''a'', ''b'']) \<and>
     filter_duplicate_files adler32 sha256 sample_fs [''a'', ''b'', ''c''] None = Inr [[''a'', ''b'']]"
    by (intro conjI)
qed

section \<open>Truncation budgets\<close>



section \<open>Read errors\<close>

text \<open>
  Claim C3 says that a file that cannot be read in some pass is dropped and the run goes
  on to return a result. The module catches no exception: with a missing file, or with
  two files that pass the size pass and cannot be opened, the run ends with the error.
\<close>

theorem read_error_aborts_counterexample:
  "\<forall>adler32 sha256.
     filter_duplicate_files adler32 sha256 sample_fs [''a'', ''b'', ''z''] None =
       Inl (FileNotFoundError ''z'') \<and>
     filter_duplicate_files adler32 sha256 sample_fs [''a'', ''b'', ''d'', ''e''] None =
       Inl (PermissionError ''d'')"
  by (simp add: run_simps)

text \<open>
  Claim C3, as amended. An exception of a key function is not caught: the inner loop ends
  with the error of the first file whose key function fails, and a pass that ends with
  an error ends the whole run with that error, without a result. A run over an input
  with a missing file ends with an error; a run over files that all exist and can be
  opened returns a result.
\<close>

theorem read_error_aborts:
  "(n < 3 \<and> after_passes adler32 sha256 fs files top_arg n = Inr (duplicates, files') \<and>
      scan (fst (iterations adler32 sha256 fs top_arg ! n)) files' [] = Inl e \<longrightarrow>
      filter_duplicate_files adler32 sha256 fs files top_arg = Inl e) \<and>
   ((\<forall>q\<in>set ps. \<exists>k. keyfunction q = Inr k) \<and> keyfunction filepath = Inl e' \<longrightarrow>
      scan keyfunction (ps @ filepath # qs) d = Inl e') \<and>
   (p \<in> set files \<and> fs p = None \<longrightarrow>
      (\<exists>e. filter_duplicate_files adler32 sha256 fs files top_arg = Inl e)) \<and>
   ((\<forall>p\<in>set files. full_read fs p \<noteq> None) \<longrightarrow>
      (\<exists>result. filter_duplicate_files adler32 sha256 fs files top_arg = Inr result))"
  using pass_error_aborts [of n adler32 sha256 fs files top_arg duplicates files' e]
    scan_first_error [of ps keyfunction filepath e' qs d]
    missing_run [of p files fs adler32 sha256 top_arg]
    readable_run [of files fs adler32 sha256 top_arg]
  by blast

theorem read_error_aborts_witness:
  "\<forall>adler32 sha256.
     (1::nat) < 3 \<and>
     after_passes adler32 sha256 sample_fs [''a'', ''b'', ''d'', ''e''] None 1 =
       Inr ([(Size 4, [''a'', ''b'']), (Size 2, [''d'', ''e''])], [''a'', ''b'', ''d'', ''e'']) \<and>
     scan (fst (iterations adler32 sha256 sample_fs None ! 1)) [''a'', ''b'', ''d'', ''e''] [] =
       Inl (PermissionError ''d'') \<and>
     filter_duplicate_files adler32 sha256 sample_fs [''a'', ''b'', ''d'', ''e''] None =
       Inl (PermissionError ''d'') \<and>
     getsize sample_fs ''a'' = Inr (Size 4) \<and> getsize sample_fs ''b'' = Inr (Size 4) \<and>
     getsize sample_fs ''z'' = Inl (FileNotFoundError ''z'') \<and>
     scan (getsize sample_fs) ([''a'', ''b''] @ ''z'' # [''c'']) [] = Inl (FileNotFoundError ''z'') \<and>
     ''z'' \<in> set [''a'', ''b'', ''z''] \<and> sample_fs ''z'' = None \<and>
     (\<exists>e. filter_duplicate_files adler32 sha256 sample_fs [''a'', ''b'', ''z''] None = Inl e) \<and>
     full_read sample_fs ''a'' \<noteq> None \<and> full_read sample_fs ''b'' \<noteq> None \<and>
     full_read sample_fs ''c'' \<noteq> None \<and>
     (\<exists>result. filter_duplicate_files adler32 sha256 sample_fs [''a'', ''b'', ''c''] None = Inr result)"
proof (intro allI)
  fix adler32 :: "byte list \<Rightarrow> 32 word" and sha256 :: "byte list \<Rightarrow> 256 word"
  have 1: "after_passes adler32 sha256 sample_fs [''a'', ''b'', ''d'', ''e''] None 1 =
       Inr ([(Size 4, [''a'', ''b'']), (Size 2, [''d'', ''e''])], [''a'', ''b'', ''d'', ''e''])"
    by (rule sample_after_1_denied)
  have 2: "scan (fst (iterations adler32 sha256 sample_fs None ! 1)) [''a'', ''b'', ''d'', ''e''] [] =
       Inl (PermissionError ''d'')"
    by (simp add: iterations_def run_simps)
  have 3: "sample_fs ''z'' = None" by (simp add: sample_fs_def)
  have 4: "\<forall>p\<in>set [''a'', ''b'', ''c'']. full_read sample_fs p \<noteq> None"
    by (simp add: sample_full_read)
  have 5: "getsize sample_fs ''a'' = Inr (Size 4)" "getsize sample_fs ''b'' = Inr (Size 4)"
    "getsize sample_fs ''z'' = Inl (FileNotFoundError ''z'')"
    by (simp_all add: getsize_def sample_fs_def)
  then have 6: "(\<forall>q\<in>set [''a'', ''b'']. \<exists>k. getsize sample_fs q = Inr k) \<and>
      getsize sample_fs ''z'' = Inl (FileNotFoundError ''z'')"
    by simp
  have 7: "scan (getsize sample_fs) ([''a'', ''b''] @ ''z'' # [''c'']) [] = Inl (FileNotFoundError ''z'')"
    using 6 read_error_aborts [of _ adler32 sha256 sample_fs "[]" None _ _ _
        "[''a'', ''b'']" "getsize sample_fs" "''z''" "FileNotFoundError ''z''" "[''c'']" "[]",
        THEN conjunct2, THEN conjunct1]
    by blast
  show "(1::nat) < 3 \<and>
     after_passes adler32 sha256 sample_fs [''a'', ''b'', ''d'', ''e''] None 1 =
       Inr ([(Size 4, [''a'', ''b'']), (Size 2, [''d'', ''e''])], [''a'', ''b'', ''d'', ''e'']) \<and>
     scan (fst (iterations adler32 sha256 sample_fs None ! 1)) [''a'', ''b'', ''d'', ''e''] [] =
       Inl (PermissionError ''d'') \<and>
     filter_duplicate_files adler32 sha256 sample_fs [''a'', ''b'', ''d'', ''e''] None =
       Inl (PermissionError ''d'') \<and>
     getsize sample_fs ''a'' = Inr (Size 4) \<and> getsize sample_fs ''b'' = Inr (Size 4) \<and>
     getsize sample_fs ''z'' = Inl (FileNotFoundError ''z'') \<and>
     scan (getsize sample_fs) ([''a'', ''b''] @ ''z'' # [''c'']) [] = Inl (FileNotFoundError ''z'') \<and>
     ''z'' \<in> set [''a'', ''b'', ''z''] \<and> sample_fs ''z'' = None \<and>
     (\<exists>e. filter_duplicate_files adler32 sha256 sample_fs [''a'', ''b'', ''z''] None = Inl e) \<and>
     full_read sample_fs ''a'' \<noteq> None \<and> full_read sample_fs ''b'' \<noteq> None \<and>
     full_read sample_fs ''c'' \<noteq> None \<and>
     (\<exists>result. filter_duplicate_files adler32 sha256 sample_fs [''a'', ''b'', ''c''] None = Inr result)"
    using 1 2 3 4 5 7
      read_error_aborts [of 1 adler32 sha256 sample_fs "[''a'', ''b'', ''d'', ''e'']" None
        "[(Size 4, [''a'', ''b'']), (Size 2, [''d'', ''e''])]" "[''a'', ''b'', ''d'', ''e'']"
        "PermissionError ''d''", THEN conjunct1]
      read_error_aborts [of _ adler32 sha256 sample_fs "[''a'', ''b'', ''z'']" None
          _ _ _ _ _ _ _ _ _ "''z''",
        THEN conjunct2, THEN conjunct2, THEN conjunct1]
      read_error_aborts [of _ adler32 sha256 sample_fs "[''a'', ''b'', ''c'']" None,
        THEN conjunct2, THEN conjunct2, THEN conjunct2]
    by (simp add: sample_full_read)
qed

section \<open>A negative top\<close>

text \<open>
  Claim C5 says that a negative \<^verbatim>\<open>top\<close> is rejected before the pipeline starts. Nothing
  in \<^verbatim>\<open>parse_arguments\<close> or in the pipeline checks the sign: \<^verbatim>\<open>-fast -top -1\<close> runs the
  three passes and returns a result.
\<close>

theorem negative_top_counterexample:
  "pipeline_top (parse_arguments
      \<lparr>directory = ''dir'', fast = True, delete_old = False, show_all = False,
       top_value = Some (- 1), include_hidden = False, include_empty = False\<rparr>) = Some (- 1) \<and>
   (\<forall>adler32 sha256.
      filter_duplicate_files adler32 sha256 sample_fs [''a'', ''b''] (Some (- 1)) = Inr [])"
  by (simp add: pipeline_top_def parse_arguments_def run_simps)

text \<open>
  Claim C5, as amended. A negative \<^verbatim>\<open>top\<close> is not rejected: \<^verbatim>\<open>parse_arguments\<close> passes it
  on unchanged, and with \<^verbatim>\<open>-fast\<close> the pipeline runs with the slice bounds \<open>top\<^sup>2\<close> and
  \<open>top * 2\<close> (a negative bound, which drops groups from the end of the sorted list) and
  returns a result whenever all files can be read.
\<close>

theorem negative_top_accepted:
  assumes "t < 0" and "fast args" and "\<not> show_all args" and "top_value args = Some t"
  shows "pipeline_top (parse_arguments args) = Some t \<and>
         map (snd \<circ> snd) (iterations adler32 sha256 fs (Some t)) = [Some (t ^ 2), Some (t * 2), None] \<and>
         ((\<forall>p\<in>set files. full_read fs p \<noteq> None) \<longrightarrow>
            (\<exists>result. filter_duplicate_files adler32 sha256 fs files (Some t) = Inr result))"
  using assms readable_run [of files fs adler32 sha256 "Some t"]
  by (simp add: pipeline_top_def parse_arguments_def iterations_def)

theorem negative_top_accepted_witness:
  "\<forall>adler32 sha256.
     (- 1 :: int) < 0 \<and>
     pipeline_top (parse_arguments
       \<lparr>directory = ''dir'', fast = True, delete_old = False, show_all = False,
        top_value = Some (- 1), include_hidden = False, include_empty = False\<rparr>) = Some (- 1) \<and>
     map (snd \<circ> snd) (iterations adler32 sha256 sample_fs (Some (- 1))) = [Some 1, Some (- 2), None] \<and>
     full_read sample_fs ''a'' \<noteq> None \<and> full_read sample_fs ''b'' \<noteq> None \<and>
     (\<exists>result. filter_duplicate_files adler32 sha256 sample_fs [''a'', ''b''] (Some (- 1)) = Inr result)"
proof (intro allI)
  fix adler32 :: "byte list \<Rightarrow> 32 word" and sha256 :: "byte list \<Rightarrow> 256 word"
  let ?args = "\<lparr>directory = ''dir'', fast = True, delete_old = False, show_all = False,
        top_value = Some (- 1), include_hidden = False, include_empty = False\<rparr>"
  have neg: "(- 1 :: int) < 0" by simp
  have f: "fast ?args" and a: "\<not> show_all ?args" and t: "top_value ?args = Some (- 1)"
    by simp_all
  show "(- 1 :: int) < 0 \<and>
     pipeline_top (parse_arguments ?args) = Some (- 1) \<and>
     map (snd \<circ> snd) (iterations adler32 sha256 sample_fs (Some (- 1))) = [Some 1, Some (- 2), None] \<and>
     full_read sample_fs ''a'' \<noteq> None \<and> full_read sample_fs ''b'' \<noteq> None \<and>
     (\<exists>result. filter_duplicate_files adler32 sha256 sample_fs [''a'', ''b''] (Some (- 1)) = Inr result)"
    using negative_top_accepted [OF neg f a t, of adler32 sha256 sample_fs "[''a'', ''b'']"]
    by (simp add: sample_full_read)
qed

section \<open>Exhaustiveness without truncation\<close>

text \<open>
  Claim C1. For every input of files that can be read, run with \<^verbatim>\<open>top = None\<close>: two
  entries of the input (at different positions) with byte-identical content are together
  in one returned list, and in no other returned list.
\<close>

theorem exhaustive_without_top:
  assumes "\<forall>x\<in>set files. full_read fs x \<noteq> None"
    and "i < length files" and "j < length files" and "i \<noteq> j"
    and "full_read fs (files ! i) = full_read fs (files ! j)"
  shows "\<exists>result. filter_duplicate_files adler32 sha256 fs files None = Inr result \<and>
           (\<exists>m<length result.
              files ! i \<in> set (result ! m) \<and> files ! j \<in> set (result ! m) \<and>
              {#files ! i, files ! j#} \<subseteq># mset (result ! m) \<and>
              (\<forall>m'<length result.
                 files ! i \<in> set (result ! m') \<or> files ! j \<in> set (result ! m') \<longrightarrow> m' = m))"
proof -
  let ?p = "files ! i" and ?q = "files ! j"
  from assms(1) obtain d1 d2 d3 where
    d1: "scan (getsize fs) files [] = Inr d1" and
    d2: "scan (get_crc_key adler32 fs) (next_files None d1) [] = Inr d2" and
    d3: "scan (get_hash_key sha256 fs) (next_files None d2) [] = Inr d3" and
    res: "filter_duplicate_files adler32 sha256 fs files None =
       Inr (filter (\<lambda>filelist. 1 < length filelist) (map snd d3))"
    by (rule readable_scans)
  have "full_read fs ?p \<noteq> None" using assms(1,2) by simp
  with assms(5) have keys: "getsize fs ?p = getsize fs ?q"
    "get_crc_key adler32 fs ?p = get_crc_key adler32 fs ?q"
    "get_hash_key sha256 fs ?p = get_hash_key sha256 fs ?q"
    by (rule same_content_same_keys)+
  have "{#?p, ?q#} \<subseteq># mset files" using assms(2-4) by (rule nth_pair_mset)
  with d1 have "{#?p, ?q#} \<subseteq># mset (next_files None d1)" using keys(1) by (rule pair_survives)
  with d2 have "{#?p, ?q#} \<subseteq># mset (next_files None d2)" using keys(2) by (rule pair_survives)
  with d3 obtain m where m: "m < length (filter (\<lambda>g. 1 < length g) (map snd d3))"
    "{#?p, ?q#} \<subseteq># mset (filter (\<lambda>g. 1 < length g) (map snd d3) ! m)"
    "\<forall>m'<length (filter (\<lambda>g. 1 < length g) (map snd d3)).
              ?p \<in> set (filter (\<lambda>g. 1 < length g) (map snd d3) ! m') \<or>
              ?q \<in> set (filter (\<lambda>g. 1 < length g) (map snd d3) ! m') \<longrightarrow> m' = m"
    using pair_in_one_result [OF _ _ keys(3)] by blast
  from m(2) have "?p \<in># mset (filter (\<lambda>g. 1 < length g) (map snd d3) ! m)"
    "?q \<in># mset (filter (\<lambda>g. 1 < length g) (map snd d3) ! m)"
    by (auto dest: mset_subset_eqD)
  then have "?p \<in> set (filter (\<lambda>g. 1 < length g) (map snd d3) ! m)"
    "?q \<in> set (filter (\<lambda>g. 1 < length g) (map snd d3) ! m)"
    by simp_all
  with res m show ?thesis by blast
qed

theorem exhaustive_without_top_witness:
  "\<forall>adler32 sha256.
     full_read sample_fs ''a'' \<noteq> None \<and> full_read sample_fs ''b'' \<noteq> None \<and>
     full_read sample_fs ''c'' \<noteq> None \<and>
     (0::nat) < length [''a'', ''b'', ''c''] \<and> (1::nat) < length [''a'', ''b'', ''c''] \<and>
     (0::nat) \<noteq> 1 \<and>
     full_read sample_fs ([''a'', ''b'', ''c''] ! 0) = full_read sample_fs ([''a'', ''b'', ''c''] ! 1) \<and>
     filter_duplicate_files adler32 sha256 sample_fs [''a'', ''b'', ''c''] None = Inr [[''a'', ''b'']] \<and>
     (\<exists>result. filter_duplicate_files adler32 sha256 sample_fs [''a'', ''b'', ''c''] None = Inr result \<and>
        (\<exists>m<length result.
           ''a'' \<in> set (result ! m) \<and> ''b'' \<in> set (result ! m) \<and>
           {#''a'', ''b''#} \<subseteq># mset (result ! m) \<and>
           (\<forall>m'<length result. ''a'' \<in> set (result ! m') \<or> ''b'' \<in> set (result ! m') \<longrightarrow> m' = m)))"
proof (intro allI)
  fix adler32 :: "byte list \<Rightarrow> 32 word" and sha256 :: "byte list \<Rightarrow> 256 word"
  have r: "\<forall>x\<in>set [''a'', ''b'', ''c'']. full_read sample_fs x \<noteq> None"
    by (simp add: sample_full_read)
  have c: "full_read sample_fs ([''a'', ''b'', ''c''] ! 0) = full_read sample_fs ([''a'', ''b'', ''c''] ! 1)"
    by (simp add: sample_full_read)
  have "\<exists>result. filter_duplicate_files adler32 sha256 sample_fs [''a'', ''b'', ''c''] None = Inr result \<and>
        (\<exists>m<length result.
           ''a'' \<in> set (result ! m) \<and> ''b'' \<in> set (result ! m) \<and>
           {#''a'', ''b''#} \<subseteq># mset (result ! m) \<and>
           (\<forall>m'<length result. ''a'' \<in> set (result ! m') \<or> ''b'' \<in> set (result ! m') \<longrightarrow> m' = m))"
    using exhaustive_without_top [OF r _ _ _ c, of adler32 sha256] by simp
  then show "full_read sample_fs ''a'' \<noteq> None \<and> full_read sample_fs ''b'' \<noteq> None \<and>
     full_read sample_fs ''c'' \<noteq> None \<and>
     (0::nat) < length [''a'', ''b'', ''c''] \<and> (1::nat) < length [''a'', ''b'', ''c''] \<and>
     (0::nat) \<noteq> 1 \<and>
     full_read sample_fs ([''a'', ''b'', ''c''] ! 0) = full_read sample_fs ([''a'', ''b'', ''c''] ! 1) \<and>
     filter_duplicate_files adler32 sha256 sample_fs [''a'', ''b'', ''c''] None = Inr [[''a'', ''b'']] \<and>
     (\<exists>result. filter_duplicate_files adler32 sha256 sample_fs [''a'', ''b'', ''c''] None = Inr result \<and>
        (\<exists>m<length result.
           ''a'' \<in> set (result ! m) \<and> ''b'' \<in> set (result ! m) \<and>
           {#''a'', ''b''#} \<subseteq># mset (result ! m) \<and>
           (\<forall>m'<length result. ''a'' \<in> set (result ! m') \<or> ''b'' \<in> set (result ! m') \<longrightarrow> m' = m)))"
    using sample_run_abc [of adler32 sha256] by (simp add: sample_full_read)
qed

section \<open>False positives\<close>

text \<open>
  Claim C2 says that the members of a returned list are byte-for-byte identical, for every
  input. The module compares digests, never contents, and a digest has 256 bits: whatever
  the functions behind \<^verbatim>\<open>zlib.adler32\<close> and \<^verbatim>\<open>hashlib.sha256\<close> are, there are two different
  contents of 37 bytes with the same checksum and the same digest (there are more such
  contents than pairs of a checksum and a digest), and two files with these contents are
  returned as one list.
\<close>

theorem false_positive_exists:
  "\<forall>adler32 sha256. \<exists>fs files result filelist p q.
     filter_duplicate_files adler32 sha256 fs files None = Inr result \<and>
     filelist \<in> set result \<and> p \<in> set filelist \<and> q \<in> set filelist \<and>
     full_read fs p \<noteq> None \<and> full_read fs q \<noteq> None \<and>
     full_read fs p \<noteq> full_read fs q"
proof (intro allI)
  fix adler32 :: "byte list \<Rightarrow> 32 word" and sha256 :: "byte list \<Rightarrow> 256 word"
  obtain c c' where len: "length c = 37" "length c' = 37" and ne: "c \<noteq> c'"
    and eq: "adler32 c = adler32 c'" "sha256 c = sha256 c'"
    using colliding_contents [of adler32 sha256] by blast
  define fs :: filesystem where
    "fs = [''a'' \<mapsto> \<lparr>content = c, readable = True\<rparr>, ''b'' \<mapsto> \<lparr>content = c', readable = True\<rparr>]"
  have "filter_duplicate_files adler32 sha256 fs [''a'', ''b''] None = Inr [[''a'', ''b'']]"
    using len eq
    by (simp add: filter_duplicate_files_unfold fs_def getsize_def get_crc_key_def
        get_hash_key_def open_rb_def read_def hash_chunks_eq next_files_def kept_groups_def
        sorted_by_len_def slice_to_def)
  moreover have "full_read fs ''a'' = Some c" "full_read fs ''b'' = Some c'"
    by (simp_all add: full_read_def fs_def)
  ultimately have "filter_duplicate_files adler32 sha256 fs [''a'', ''b''] None = Inr [[''a'', ''b'']] \<and>
     [''a'', ''b''] \<in> set [[''a'', ''b'']] \<and> ''a'' \<in> set [''a'', ''b''] \<and> ''b'' \<in> set [''a'', ''b''] \<and>
     full_read fs ''a'' \<noteq> None \<and> full_read fs ''b'' \<noteq> None \<and>
     full_read fs ''a'' \<noteq> full_read fs ''b''"
    using ne by simp
  then show "\<exists>fs files result filelist p q.
     filter_duplicate_files adler32 sha256 fs files None = Inr result \<and>
     filelist \<in> set result \<and> p \<in> set filelist \<and> q \<in> set filelist \<and>
     full_read fs p \<noteq> None \<and> full_read fs q \<noteq> None \<and>
     full_read fs p \<noteq> full_read fs q"
    by blast
qed

text \<open>
  Claim C2, as amended. For every input and every \<^verbatim>\<open>top\<close>, the members of a returned
  list are files of the input that can be read and have the same SHA-256 digest; they
  are byte-for-byte identical whenever SHA-256 has no collision among the contents of the
  input files.
\<close>

theorem returned_sets_share_digest:
  assumes "filter_duplicate_files adler32 sha256 fs files top_arg = Inr result"
    and "filelist \<in> set result" and "p \<in> set filelist" and "q \<in> set filelist"
  shows "p \<in> set files \<and> q \<in> set files \<and>
         (\<exists>c c'. full_read fs p = Some c \<and> full_read fs q = Some c' \<and> sha256 c = sha256 c') \<and>
         (collision_free sha256 fs files \<longrightarrow> full_read fs p = full_read fs q)"
proof -
  from assms(1) obtain files2 d3 where
    d3: "scan (get_hash_key sha256 fs) files2 [] = Inr d3" and
    res: "result = filter (\<lambda>filelist. 1 < length filelist) (map snd d3)" and
    sub: "mset files2 \<subseteq># mset files"
    by (rule result_groups)
  from assms(2) res obtain k where k: "(k, filelist) \<in> set d3" by auto
  have kp: "get_hash_key sha256 fs p = Inr k" and p2: "p \<in> set files2"
    using group_of_member [OF d3 k assms(3)] by simp_all
  have kq: "get_hash_key sha256 fs q = Inr k" and q2: "q \<in> set files2"
    using group_of_member [OF d3 k assms(4)] by simp_all
  have "set files2 \<subseteq> set files" using set_mset_mono [OF sub] by simp
  with p2 q2 have mem: "p \<in> set files" "q \<in> set files" by auto
  from kp obtain c where c: "full_read fs p = Some c" "k = Hash (sha256 c)"
    using get_hash_key_Inr by blast
  from kq obtain c' where c': "full_read fs q = Some c'" "k = Hash (sha256 c')"
    using get_hash_key_Inr by blast
  from c(2) c'(2) have dig: "sha256 c = sha256 c'" by simp
  have "full_read fs p = full_read fs q" if "collision_free sha256 fs files"
  proof -
    from that mem have "case (full_read fs p, full_read fs q) of
          (Some c, Some c') \<Rightarrow> sha256 c = sha256 c' \<longrightarrow> c = c'
        | _ \<Rightarrow> True"
      unfolding collision_free_def by blast
    then show ?thesis using c(1) c'(1) dig by simp
  qed
  with mem c(1) c'(1) dig show ?thesis by blast
qed

theorem returned_sets_share_digest_witness:
  "\<forall>adler32 sha256.
     filter_duplicate_files adler32 sha256 sample_fs [''a'', ''b''] None = Inr [[''a'', ''b'']] \<and>
     [''a'', ''b''] \<in> set [[''a'', ''b'']] \<and> ''a'' \<in> set [''a'', ''b''] \<and> ''b'' \<in> set [''a'', ''b''] \<and>
     collision_free sha256 sample_fs [''a'', ''b''] \<and>
     (\<exists>c c'. full_read sample_fs ''a'' = Some c \<and> full_read sample_fs ''b'' = Some c' \<and>
        sha256 c = sha256 c') \<and>
     full_read sample_fs ''a'' = full_read sample_fs ''b''"
proof (intro allI)
  fix adler32 :: "byte list \<Rightarrow> 32 word" and sha256 :: "byte list \<Rightarrow> 256 word"
  have run: "filter_duplicate_files adler32 sha256 sample_fs [''a'', ''b''] None = Inr [[''a'', ''b'']]"
    by (rule sample_run_ab)
  have cf: "collision_free sha256 sample_fs [''a'', ''b'']"
    by (simp add: collision_free_def sample_full_read)
  show "filter_duplicate_files adler32 sha256 sample_fs [''a'', ''b''] None = Inr [[''a'', ''b'']] \<and>
     [''a'', ''b''] \<in> set [[''a'', ''b'']] \<and> ''a'' \<in> set [''a'', ''b''] \<and> ''b'' \<in> set [''a'', ''b''] \<and>
     collision_free sha256 sample_fs [''a'', ''b''] \<and>
     (\<exists>c c'. full_read sample_fs ''a'' = Some c \<and> full_read sample_fs ''b'' = Some c' \<and>
        sha256 c = sha256 c') \<and>
     full_read sample_fs ''a'' = full_read sample_fs ''b''"
    using returned_sets_share_digest [OF run, of "[''a'', ''b'']" "''a''" "''b''"] run cf
    by (auto simp: sample_full_read)
qed

section \<open>A path that occurs twice\<close>

text \<open>
  Claim C10 says that a path that occurs twice in the input is returned as a list of
  size 2. With \<^verbatim>\<open>top = 1\<close> the size pass keeps one group only: the path \<open>c\<close> occurs twice,
  no other file has its content, and it is not returned.
\<close>

theorem repeated_path_counterexample:
  "\<forall>adler32 sha256.
     count_list [''a'', ''a'', ''a'', ''c'', ''c''] ''c'' = 2 \<and>
     full_read sample_fs ''c'' \<noteq> full_read sample_fs ''a'' \<and>
     filter_duplicate_files adler32 sha256 sample_fs [''a'', ''a'', ''a'', ''c'', ''c''] (Some 1) =
       Inr [[''a'', ''a'', ''a'']]"
  by (simp add: sample_run_top1 sample_full_read)

text \<open>
  Claim C10, as amended. Run with \<^verbatim>\<open>top = None\<close> on files that can be read, an input that
  contains a path exactly twice returns a list that contains this path twice: the two
  entries have the same key in every pass and the input is never deduplicated. The list
  is exactly the path twice when no other file of the input has the same SHA-256 digest.
\<close>

theorem repeated_path_returned:
  assumes "\<forall>x\<in>set files. full_read fs x \<noteq> None"
    and "count_list files p = 2"
  shows "\<exists>result. filter_duplicate_files adler32 sha256 fs files None = Inr result \<and>
           (\<exists>filelist\<in>set result. count_list filelist p = 2 \<and>
              ((\<forall>x\<in>set files. x \<noteq> p \<longrightarrow>
                  get_hash_key sha256 fs x \<noteq> get_hash_key sha256 fs p) \<longrightarrow>
               filelist = [p, p]))"
proof -
  from assms(1) obtain d1 d2 d3 where
    d1: "scan (getsize fs) files [] = Inr d1" and
    d2: "scan (get_crc_key adler32 fs) (next_files None d1) [] = Inr d2" and
    d3: "scan (get_hash_key sha256 fs) (next_files None d2) [] = Inr d3" and
    res: "filter_duplicate_files adler32 sha256 fs files None =
       Inr (filter (\<lambda>filelist. 1 < length filelist) (map snd d3))"
    by (rule readable_scans)
  let ?files2 = "next_files None d2"
  have "{#p, p#} \<subseteq># mset files" using assms(2) by (rule twice_pair_mset)
  with d1 have "{#p, p#} \<subseteq># mset (next_files None d1)" by (rule pair_survives) simp
  with d2 have pair2: "{#p, p#} \<subseteq># mset ?files2" by (rule pair_survives) simp
  have sub: "mset ?files2 \<subseteq># mset files"
    using scan_next_files_mset [OF d2] scan_next_files_mset [OF d1]
    by (rule subset_mset.order_trans)
  have "count_list ?files2 p \<le> 2"
    using count_list_mono_mset [OF sub, of p] assms(2) by simp
  moreover have "2 \<le> count_list ?files2 p"
    using mset_subset_eq_count [OF pair2, of p] by (simp add: count_mset)
  ultimately have cnt: "count_list ?files2 p = 2" by simp
  from d3 pair2 obtain k g where k: "get_hash_key sha256 fs p = Inr k"
    and g: "(k, g) \<in> set d3" "1 < length g"
      "g = filter (\<lambda>x. get_hash_key sha256 fs x = Inr k) ?files2"
    by (rule pair_in_group [where q = p]) simp_all
  have mem: "g \<in> set (filter (\<lambda>filelist. 1 < length filelist) (map snd d3))"
    using g(1,2) by force
  have twice: "count_list g p = 2"
    unfolding g(3) using k cnt by (simp add: count_list_filter)
  have only: "g = [p, p]"
    if other: "\<forall>x\<in>set files. x \<noteq> p \<longrightarrow> get_hash_key sha256 fs x \<noteq> get_hash_key sha256 fs p"
  proof -
    have "set ?files2 \<subseteq> set files" using set_mset_mono [OF sub] by simp
    then have "(get_hash_key sha256 fs x = Inr k) = (x = p)" if "x \<in> set ?files2" for x
      using that other k by auto
    then have "g = filter (\<lambda>x. x = p) ?files2"
      unfolding g(3) by (intro filter_cong) simp_all
    then show ?thesis
      by (simp add: filter_eq_replicate_count cnt numeral_2_eq_2)
  qed
  from res mem twice only show ?thesis by blast
qed

text \<open>
  An instance with a file of each content before the two entries of \<open>c\<close>, for a hash
  function that separates contents of different lengths.
\<close>

theorem repeated_path_returned_witness:
  "\<forall>adler32.
     full_read sample_fs ''a'' \<noteq> None \<and> full_read sample_fs ''b'' \<noteq> None \<and>
     full_read sample_fs ''c'' \<noteq> None \<and>
     count_list [''a'', ''c'', ''b'', ''c''] ''c'' = 2 \<and>
     get_hash_key (\<lambda>bs. of_nat (length bs)) sample_fs ''a'' \<noteq>
       get_hash_key (\<lambda>bs. of_nat (length bs)) sample_fs ''c'' \<and>
     get_hash_key (\<lambda>bs. of_nat (length bs)) sample_fs ''b'' \<noteq>
       get_hash_key (\<lambda>bs. of_nat (length bs)) sample_fs ''c'' \<and>
     (\<exists>result. filter_duplicate_files adler32 (\<lambda>bs. of_nat (length bs)) sample_fs
          [''a'', ''c'', ''b'', ''c''] None = Inr result \<and>
        [''c'', ''c''] \<in> set result \<and> count_list [''c'', ''c''] ''c'' = 2)"
proof (intro allI)
  fix adler32 :: "byte list \<Rightarrow> 32 word"
  let ?sha = "\<lambda>bs :: byte list. of_nat (length bs) :: 256 word"
  have r: "\<forall>x\<in>set [''a'', ''c'', ''b'', ''c'']. full_read sample_fs x \<noteq> None"
    by (simp add: sample_full_read)
  have c: "count_list [''a'', ''c'', ''b'', ''c''] ''c'' = 2" by simp
  have k: "get_hash_key ?sha sample_fs ''a'' \<noteq> get_hash_key ?sha sample_fs ''c''"
    "get_hash_key ?sha sample_fs ''b'' \<noteq> get_hash_key ?sha sample_fs ''c''"
    by (simp_all add: get_hash_key_def open_rb_def sample_fs_def hash_chunks_eq)
  then have h: "\<forall>x\<in>set [''a'', ''c'', ''b'', ''c'']. x \<noteq> ''c'' \<longrightarrow>
      get_hash_key ?sha sample_fs x \<noteq> get_hash_key ?sha sample_fs ''c''"
    by simp
  from repeated_path_returned [OF r c, of adler32 ?sha]
  obtain result filelist where
    run: "filter_duplicate_files adler32 ?sha sample_fs [''a'', ''c'', ''b'', ''c''] None = Inr result"
    and mem: "filelist \<in> set result"
    and only: "(\<forall>x\<in>set [''a'', ''c'', ''b'', ''c'']. x \<noteq> ''c'' \<longrightarrow>
        get_hash_key ?sha sample_fs x \<noteq> get_hash_key ?sha sample_fs ''c'') \<longrightarrow>
      filelist = [''c'', ''c'']"
    by blast
  from only h have "filelist = [''c'', ''c'']" by (rule mp)
  with run mem
  have "\<exists>result. filter_duplicate_files adler32 ?sha sample_fs
          [''a'', ''c'', ''b'', ''c''] None = Inr result \<and>
        [''c'', ''c''] \<in> set result \<and> count_list [''c'', ''c''] ''c'' = 2"
    by simp
  with k show "full_read sample_fs ''a'' \<noteq> None \<and> full_read sample_fs ''b'' \<noteq> None \<and>
     full_read sample_fs ''c'' \<noteq> None \<and>
     count_list [''a'', ''c'', ''b'', ''c''] ''c'' = 2 \<and>
     get_hash_key ?sha sample_fs ''a'' \<noteq> get_hash_key ?sha sample_fs ''c'' \<and>
     get_hash_key ?sha sample_fs ''b'' \<noteq> get_hash_key ?sha sample_fs ''c'' \<and>
     (\<exists>result. filter_duplicate_files adler32 ?sha sample_fs
          [''a'', ''c'', ''b'', ''c''] None = Inr result \<and>
        [''c'', ''c''] \<in> set result \<and> count_list [''c'', ''c''] ''c'' = 2)"
    by (simp add: sample_full_read)
qed

end
